theory Spec2Isabelle
  imports Main
begin

section \<open>The versioned record store of index.ts\<close>

text \<open>
  The server keeps one JSON file per record, \<^verbatim>\<open>STORAGE_PATH/<store>/<safeId>.json\<close>, and
  answers five requests on it: list, create, read one, update and delete. This theory
  embeds the request handlers of \<^verbatim>\<open>index.ts\<close> as functions on an explicit file store
  and proves properties of them.

  Conventions of the embedding:
  \<^item> a JavaScript string is a \<open>string\<close>, one \<open>char\<close> per code unit (code units below 256);
    \<^verbatim>\<open>a > b\<close> on strings is the lexicographic order of the code units;
  \<^item> a JavaScript number is an integer or \<^verbatim>\<open>NaN\<close> (\<open>jsnum\<close>). The numbers of the source
    are doubles: the integer of a number that \<^verbatim>\<open>JSON.parse\<close> returns is one a double
    holds exactly, a sum or a difference is rounded to the nearest double
    (\<open>double_of\<close>), and a number prints with the shortest digits that read back as
    the same double (\<open>number_string\<close>). Fractions and infinities are outside the
    model;
  \<^item> a text that goes through \<^verbatim>\<open>JSON.parse\<close> (a file, a request body) is represented by
    the outcome of the parse: \<open>Malformed\<close> when the parse throws, \<open>Json v\<close> when it
    returns \<open>v\<close>; \<^verbatim>\<open>JSON.stringify\<close> followed by \<^verbatim>\<open>JSON.parse\<close> is the identity on the
    values written here;
  \<^item> \<^verbatim>\<open>undefined\<close> is \<open>None\<close> of an option type, \<^verbatim>\<open>null\<close> returned by \<^verbatim>\<open>readEntity\<close> as
    well (both are falsy and the source only tests truthiness);
  \<^item> a thrown exception is \<open>Inl\<close> of a sum type;
  \<^item> the clock reading \<^verbatim>\<open>new Date().toISOString()\<close> is the argument \<open>now\<close>;
  \<^item> the builtins the source calls and the language leaves to the platform
    (\<^verbatim>\<open>Date\<close> parsing, \<^verbatim>\<open>localeCompare\<close>, the numeric value of a string) are the fields
    of a \<open>platform\<close> record that the handlers take as an argument;
  \<^item> an object is the list of its members in the order of insertion, which is the order
    \<^verbatim>\<open>JSON.stringify\<close> writes for keys that are not array indices;
  \<^item> a response is its status and its body; the headers, the same on every answer, are
    left out. Directories are left out as well: a store without files lists as empty,
    as a missing directory does, and files without the suffix \<^verbatim>\<open>.json\<close> are never read.
\<close>

subsection \<open>JSON values\<close>

datatype json =
    JNull
  | JBool bool
  | JNum int
  | JStr string
  | JArr "json list"
  | JObj "(string \<times> json) list"

datatype content = Malformed | Json json

datatype jsnum = NaN | Num int

datatype exn = InvalidStoreName | InvalidId | TypeError

text \<open>Truthiness of a value (\<^verbatim>\<open>if (e)\<close>, \<^verbatim>\<open>!existing\<close>).\<close>

fun truthy :: "json \<Rightarrow> bool" where
  "truthy JNull = False"
| "truthy (JBool b) = b"
| "truthy (JNum n) = (n \<noteq> 0)"
| "truthy (JStr s) = (s \<noteq> [])"
| "truthy (JArr xs) = True"
| "truthy (JObj kvs) = True"

fun truthy_opt :: "json option \<Rightarrow> bool" where
  "truthy_opt None = False"
| "truthy_opt (Some v) = truthy v"

text \<open>
  Reading one of the properties \<^verbatim>\<open>id\<close>, \<^verbatim>\<open>version\<close>, \<^verbatim>\<open>updatedAt\<close>: a \<^verbatim>\<open>TypeError\<close> on
  \<^verbatim>\<open>null\<close>, the member of an object, \<^verbatim>\<open>undefined\<close> on every other value (numbers,
  booleans, strings and arrays have no property of these three names).
\<close>

fun getProp :: "json \<Rightarrow> string \<Rightarrow> exn + json option" where
  "getProp JNull k = Inl TypeError"
| "getProp (JObj kvs) k = Inr (map_of kvs k)"
| "getProp v k = Inr None"

subsection \<open>Integers as doubles\<close>

text \<open>
  The number of binary digits of a positive integer, and the double nearest to a
  non-negative integer: below \<open>2 ^ 53\<close> every integer is a double; from there on a double
  has 53 significant bits, the rest is rounded to the nearest, a tie to the even one.
  \<open>2 ^ 1024\<close> stands for \<^verbatim>\<open>Infinity\<close>, the result from the largest double on.
\<close>

function bits :: "int \<Rightarrow> nat" where
  "bits n = (if n \<le> 0 then 0 else Suc (bits (n div 2)))"
  by pat_completeness auto

termination
  by (relation "measure nat") auto

declare bits.simps [simp del]

definition double_abs :: "int \<Rightarrow> int" where
  "double_abs a =
     (if a < 2 ^ 53 then a
      else (let q = 2 ^ (bits a - 53);
                m = a div q;
                r = a mod q;
                up = (if q < 2 * r \<or> (2 * r = q \<and> odd m) then (m + 1) * q else m * q)
            in min up (2 ^ 1024)))"

definition double_of :: "int \<Rightarrow> int" where
  "double_of x = (if x < 0 then - double_abs (- x) else double_abs x)"

text \<open>Decimal digits of a natural number.\<close>

definition digit :: "nat \<Rightarrow> char" where
  "digit d = char_of (48 + d)"

fun show_nat :: "nat \<Rightarrow> string" where
  "show_nat n = (if n < 10 then [digit n] else show_nat (n div 10) @ [digit (n mod 10)])"

declare show_nat.simps [simp del]

function show_digits :: "int \<Rightarrow> string" where
  "show_digits n = (if n < 10 then [digit (nat n)] else show_digits (n div 10) @ [digit (nat (n mod 10))])"
  by pat_completeness auto

termination
  by (relation "measure nat") auto

declare show_digits.simps [simp del]

text \<open>
  \<^verbatim>\<open>String(x)\<close> for a positive integer \<open>x\<close> that is a double. With the fewest significant
  digits first, the two multiples of the power of ten next to \<open>x\<close> are tried; the one
  that reads back as \<open>x\<close> is taken, the nearer of the two when both do, the one with the
  even last digit when they are as near. The number found prints with all its digits
  below \<open>10 ^ 21\<close> and in exponent form from there on.
\<close>

fun shortest_from :: "int \<Rightarrow> nat \<Rightarrow> int" where
  "shortest_from x 0 = x"
| "shortest_from x (Suc j) =
     (let p = 10 ^ Suc j;
          lo = (x div p) * p;
          hi = lo + p;
          okl = (double_abs lo = x);
          okh = (double_abs hi = x)
      in if okl \<and> okh
         then (if x - lo < hi - x \<or> (x - lo = hi - x \<and> even (x div p)) then lo else hi)
         else if okl then lo
         else if okh then hi
         else shortest_from x j)"

definition strip_zeros :: "string \<Rightarrow> string" where
  "strip_zeros ds = rev (dropWhile (\<lambda>c. c = CHR ''0'') (rev ds))"

definition pos_string :: "int \<Rightarrow> string" where
  "pos_string x =
     (let v = shortest_from x (length (show_digits x) - 1);
          ds = show_digits v;
          ms = strip_zeros ds
      in if v < 10 ^ 21 then ds
         else hd ms # (if tl ms = [] then [] else CHR ''.'' # tl ms) @ ''e+'' @ show_nat (length ds - 1))"

definition number_string :: "int \<Rightarrow> string" where
  "number_string i =
     (if i = 0 then ''0'' else if i < 0 then CHR ''-'' # pos_string (- i) else pos_string i)"

fun join_comma :: "string list \<Rightarrow> string" where
  "join_comma [] = []"
| "join_comma [s] = s"
| "join_comma (s # t # ss) = s @ CHR '','' # join_comma (t # ss)"

text \<open>The results of a list of conversions, or the first exception among them.\<close>

fun all_results :: "(exn + 'a) list \<Rightarrow> exn + 'a list" where
  "all_results [] = Inr []"
| "all_results (Inl e # rs) = Inl e"
| "all_results (Inr x # rs) = (case all_results rs of Inl e \<Rightarrow> Inl e | Inr xs \<Rightarrow> Inr (x # xs))"

text \<open>
  \<^verbatim>\<open>String(v)\<close>. An array is the comma-joined strings of its elements, \<^verbatim>\<open>null\<close> elements
  printing as the empty string. An object that \<^verbatim>\<open>JSON.parse\<close> returns prints as
  \<^verbatim>\<open>[object Object]\<close>, unless it has a member \<^verbatim>\<open>toString\<close>: that member is no function, the
  conversion finds no primitive value and throws a \<^verbatim>\<open>TypeError\<close>.
\<close>

fun js_String :: "json \<Rightarrow> exn + string" where
  "js_String JNull = Inr ''null''"
| "js_String (JBool b) = Inr (if b then ''true'' else ''false'')"
| "js_String (JNum n) = Inr (number_string n)"
| "js_String (JStr s) = Inr s"
| "js_String (JArr xs) =
     (case all_results (map (\<lambda>x. if x = JNull then Inr [] else js_String x) xs) of
        Inl e \<Rightarrow> Inl e
      | Inr ss \<Rightarrow> Inr (join_comma ss))"
| "js_String (JObj kvs) =
     (if map_of kvs ''toString'' \<noteq> None then Inl TypeError else Inr ''[object Object]'')"

fun js_String_opt :: "json option \<Rightarrow> exn + string" where
  "js_String_opt None = Inr ''undefined''"
| "js_String_opt (Some v) = js_String v"

subsection \<open>Objects\<close>

text \<open>
  Setting a property keeps the position of a key the object already has and appends a
  new key (\<^verbatim>\<open>{...body, id: x}\<close>).
\<close>

fun assoc_set :: "'k \<Rightarrow> 'v \<Rightarrow> ('k \<times> 'v) list \<Rightarrow> ('k \<times> 'v) list" where
  "assoc_set k v [] = [(k, v)]"
| "assoc_set k v (p # ps) = (if fst p = k then (k, v) # ps else p # assoc_set k v ps)"

text \<open>
  A property whose value is \<^verbatim>\<open>undefined\<close> is left out by \<^verbatim>\<open>JSON.stringify\<close>, so it is
  absent from the file.
\<close>

fun with_prop :: "string \<Rightarrow> json option \<Rightarrow> (string \<times> json) list \<Rightarrow> (string \<times> json) list" where
  "with_prop k None kvs = filter (\<lambda>p. fst p \<noteq> k) kvs"
| "with_prop k (Some v) kvs = assoc_set k v kvs"

fun index_from :: "nat \<Rightarrow> json list \<Rightarrow> (string \<times> json) list" where
  "index_from i [] = []"
| "index_from i (x # xs) = (show_nat i, x) # index_from (Suc i) xs"

text \<open>
  The own enumerable properties that \<^verbatim>\<open>{...body}\<close> copies: the members of an object, the
  indexed elements of an array or a string, nothing for a number, a boolean or
  \<^verbatim>\<open>null\<close>.
\<close>

fun spread :: "json \<Rightarrow> (string \<times> json) list" where
  "spread (JObj kvs) = kvs"
| "spread (JArr xs) = index_from 0 xs"
| "spread (JStr s) = index_from 0 (map (\<lambda>c. JStr [c]) s)"
| "spread v = []"

subsection \<open>The platform\<close>

text \<open>
  \<open>parseDate s\<close> is \<^verbatim>\<open>new Date(s).getTime()\<close> for a string \<open>s\<close> (milliseconds, or
  \<^verbatim>\<open>NaN\<close> for an invalid date); \<open>localeCompare a b\<close> is \<^verbatim>\<open>a.localeCompare(b)\<close>;
  \<open>stringToNumber s\<close> is \<^verbatim>\<open>Number(s)\<close> for a string \<open>s\<close>, where a result that is no
  integer counts as \<^verbatim>\<open>NaN\<close> (its only use is a strict comparison with an integer).
\<close>

record platform =
  parseDate :: "string \<Rightarrow> jsnum"
  localeCompare :: "string \<Rightarrow> string \<Rightarrow> int"
  stringToNumber :: "string \<Rightarrow> jsnum"

text \<open>
  \<^verbatim>\<open>Number(v)\<close>; an array or an object goes through its string, and the exception of
  that conversion is the exception of \<^verbatim>\<open>Number\<close>.
\<close>

fun Number :: "platform \<Rightarrow> json option \<Rightarrow> exn + jsnum" where
  "Number P None = Inr NaN"
| "Number P (Some JNull) = Inr (Num 0)"
| "Number P (Some (JBool b)) = Inr (Num (if b then 1 else 0))"
| "Number P (Some (JNum n)) = Inr (Num n)"
| "Number P (Some (JStr s)) = Inr (stringToNumber P s)"
| "Number P (Some (JArr xs)) =
     (case js_String (JArr xs) of Inl e \<Rightarrow> Inl e | Inr s \<Rightarrow> Inr (stringToNumber P s))"
| "Number P (Some (JObj kvs)) =
     (case js_String (JObj kvs) of Inl e \<Rightarrow> Inl e | Inr s \<Rightarrow> Inr (stringToNumber P s))"

text \<open>
  \<^verbatim>\<open>existing.version + 1\<close>: a number, the sum rounded to a double; or a string when the
  left operand is a string, an array or an object (concatenation); or the exception of
  the conversion of the left operand.
\<close>

datatype plus_result = PNum jsnum | PStr string

fun plus_one :: "json option \<Rightarrow> exn + plus_result" where
  "plus_one None = Inr (PNum NaN)"
| "plus_one (Some JNull) = Inr (PNum (Num 1))"
| "plus_one (Some (JBool b)) = Inr (PNum (Num (if b then 2 else 1)))"
| "plus_one (Some (JNum n)) = Inr (PNum (Num (double_of (n + 1))))"
| "plus_one (Some (JStr s)) = Inr (PStr (s @ ''1''))"
| "plus_one (Some (JArr xs)) =
     (case js_String (JArr xs) of Inl e \<Rightarrow> Inl e | Inr s \<Rightarrow> Inr (PStr (s @ ''1'')))"
| "plus_one (Some (JObj kvs)) =
     (case js_String (JObj kvs) of Inl e \<Rightarrow> Inl e | Inr s \<Rightarrow> Inr (PStr (s @ ''1'')))"

text \<open>
  \<^verbatim>\<open>x !== e\<close> for a number \<open>x\<close>: true against a string, true when either side is
  \<^verbatim>\<open>NaN\<close>.
\<close>

fun strict_neq :: "jsnum \<Rightarrow> plus_result \<Rightarrow> bool" where
  "strict_neq x (PStr s) = True"
| "strict_neq x (PNum NaN) = True"
| "strict_neq NaN (PNum (Num n)) = True"
| "strict_neq (Num m) (PNum (Num n)) = (m \<noteq> n)"

fun json_of_plus :: "plus_result \<Rightarrow> json option" where
  "json_of_plus (PNum (Num n)) = Some (JNum n)"
| "json_of_plus (PNum NaN) = Some JNull"
| "json_of_plus (PStr s) = Some (JStr s)"

subsection \<open>The file store\<close>

text \<open>
  A file is addressed by the pair of its store directory and its name without the
  \<^verbatim>\<open>.json\<close> suffix. The store lists the files in the order \<^verbatim>\<open>readdir\<close> reports them.
\<close>

type_synonym path = "string \<times> string"
type_synonym fs = "(path \<times> content) list"

definition store_char :: "char \<Rightarrow> bool" where
  "store_char c = (let n = (of_char c :: nat) in
     (97 \<le> n \<and> n \<le> 122) \<or> (65 \<le> n \<and> n \<le> 90) \<or> (48 \<le> n \<and> n \<le> 57) \<or> n = 95 \<or> n = 45)"

definition valid_store_name :: "string \<Rightarrow> bool" where
  "valid_store_name s = (s \<noteq> [] \<and> list_all store_char s)"

definition assertValidStoreName :: "string \<Rightarrow> exn + unit" where
  "assertValidStoreName storeName =
     (if storeName = [] \<or> \<not> list_all store_char storeName then Inl InvalidStoreName else Inr ())"

definition safeId :: "string \<Rightarrow> string" where
  "safeId i = filter (\<lambda>c. c \<noteq> CHR ''/'' \<and> c \<noteq> CHR 0x5C) i"

definition entityPath :: "string \<Rightarrow> string \<Rightarrow> exn + path" where
  "entityPath storeName i =
     (case assertValidStoreName storeName of
        Inl e \<Rightarrow> Inl e
      | Inr _ \<Rightarrow> if safeId i = [] then Inl InvalidId else Inr (storeName, safeId i))"

definition listEntityIds :: "fs \<Rightarrow> string \<Rightarrow> exn + string list" where
  "listEntityIds files storeName =
     (case assertValidStoreName storeName of
        Inl e \<Rightarrow> Inl e
      | Inr _ \<Rightarrow> Inr (map (\<lambda>f. snd (fst f)) (filter (\<lambda>f. fst (fst f) = storeName) files)))"

definition readEntity :: "fs \<Rightarrow> string \<Rightarrow> string \<Rightarrow> exn + json option" where
  "readEntity files storeName i =
     (case entityPath storeName i of
        Inl e \<Rightarrow> Inl e
      | Inr p \<Rightarrow>
          (case map_of files p of
             None \<Rightarrow> Inr None
           | Some Malformed \<Rightarrow> Inr None
           | Some (Json v) \<Rightarrow> Inr (Some v)))"

text \<open>
  \<^verbatim>\<open>writeEntity\<close> takes the object as \<^verbatim>\<open>JSON.stringify\<close> leaves it; the path comes from
  \<^verbatim>\<open>String(entity.id)\<close>, which is \<^verbatim>\<open>"undefined"\<close> when the object has no \<^verbatim>\<open>id\<close>.
\<close>

definition writeEntity :: "fs \<Rightarrow> string \<Rightarrow> (string \<times> json) list \<Rightarrow> exn + fs" where
  "writeEntity files storeName entity =
     (case assertValidStoreName storeName of
        Inl e \<Rightarrow> Inl e
      | Inr _ \<Rightarrow>
          (case js_String_opt (map_of entity ''id'') of
             Inl e \<Rightarrow> Inl e
           | Inr sid \<Rightarrow>
               (case entityPath storeName sid of
                  Inl e \<Rightarrow> Inl e
                | Inr p \<Rightarrow> Inr (assoc_set p (Json (JObj entity)) files))))"

fun readAll :: "fs \<Rightarrow> string \<Rightarrow> string list \<Rightarrow> exn + json list" where
  "readAll files storeName [] = Inr []"
| "readAll files storeName (i # ids) =
     (case readEntity files storeName i of
        Inl e \<Rightarrow> Inl e
      | Inr e \<Rightarrow>
          (case readAll files storeName ids of
             Inl x \<Rightarrow> Inl x
           | Inr es \<Rightarrow> Inr (case e of None \<Rightarrow> es | Some v \<Rightarrow> if truthy v then v # es else es)))"

definition getAllEntities :: "fs \<Rightarrow> string \<Rightarrow> exn + json list" where
  "getAllEntities files storeName =
     (case listEntityIds files storeName of
        Inl e \<Rightarrow> Inl e
      | Inr ids \<Rightarrow> readAll files storeName ids)"

subsection \<open>Numbers, dates and the cursor order\<close>

definition js_space :: "char \<Rightarrow> bool" where
  "js_space c = (of_char c \<in> {9, 10, 11, 12, 13, 32, 160 :: nat})"

definition is_digit :: "char \<Rightarrow> bool" where
  "is_digit c = (48 \<le> (of_char c :: nat) \<and> (of_char c :: nat) \<le> 57)"

fun digits_value :: "nat \<Rightarrow> string \<Rightarrow> nat" where
  "digits_value acc [] = acc"
| "digits_value acc (c # cs) = digits_value (10 * acc + (of_char c - 48)) cs"

text \<open>
  \<^verbatim>\<open>parseInt(s, 10)\<close>: leading white space is skipped, one sign is read, the longest run
  of decimal digits is the value, rounded to a double; \<^verbatim>\<open>NaN\<close> when there is no digit.
\<close>

definition parseInt10 :: "string \<Rightarrow> jsnum" where
  "parseInt10 s =
     (let S = dropWhile js_space s;
          neg = (S \<noteq> [] \<and> hd S = CHR ''-'');
          S' = (if S \<noteq> [] \<and> (hd S = CHR ''-'' \<or> hd S = CHR ''+'') then tl S else S);
          Z = takeWhile is_digit S'
      in if Z = [] then NaN
         else Num (double_of ((if neg then - 1 else 1) * int (digits_value 0 Z))))"

fun Math_max :: "jsnum \<Rightarrow> jsnum \<Rightarrow> jsnum" where
  "Math_max (Num a) (Num b) = Num (max a b)"
| "Math_max x y = NaN"

fun Math_min :: "jsnum \<Rightarrow> jsnum \<Rightarrow> jsnum" where
  "Math_min (Num a) (Num b) = Num (min a b)"
| "Math_min x y = NaN"

fun num_gt :: "jsnum \<Rightarrow> jsnum \<Rightarrow> bool" where
  "num_gt (Num a) (Num b) = (a > b)"
| "num_gt x y = False"

fun num_eq :: "jsnum \<Rightarrow> jsnum \<Rightarrow> bool" where
  "num_eq (Num a) (Num b) = (a = b)"
| "num_eq x y = False"

text \<open>Sums and differences, rounded to a double.\<close>

fun num_add :: "jsnum \<Rightarrow> jsnum \<Rightarrow> jsnum" where
  "num_add (Num a) (Num b) = Num (double_of (a + b))"
| "num_add x y = NaN"

fun num_sub :: "jsnum \<Rightarrow> jsnum \<Rightarrow> jsnum" where
  "num_sub (Num a) (Num b) = Num (double_of (a - b))"
| "num_sub x y = NaN"

text \<open>\<^verbatim>\<open>a > b\<close> on strings: the first differing code unit decides, a proper prefix is smaller.\<close>

fun str_gt :: "string \<Rightarrow> string \<Rightarrow> bool" where
  "str_gt [] b = False"
| "str_gt (x # xs) [] = True"
| "str_gt (x # xs) (y # ys) =
     ((of_char x :: nat) > of_char y \<or> (x = y \<and> str_gt xs ys))"

text \<open>
  A property of a value that is not \<^verbatim>\<open>null\<close> (the records of a listing and the
  \<^verbatim>\<open>existing\<close> of a handler are truthy): as \<open>getProp\<close>, without the exception.
\<close>

fun field :: "json \<Rightarrow> string \<Rightarrow> json option" where
  "field (JObj kvs) k = map_of kvs k"
| "field v k = None"

text \<open>
  \<^verbatim>\<open>new Date(v).getTime()\<close>: a string is parsed, an array or an object through its
  string, with the exception of that conversion; any other value is taken as a number
  of milliseconds, which is a valid time up to 8.64e15 in absolute value.
\<close>

fun dateTime :: "platform \<Rightarrow> json option \<Rightarrow> exn + jsnum" where
  "dateTime P None = Inr NaN"
| "dateTime P (Some JNull) = Inr (Num 0)"
| "dateTime P (Some (JBool b)) = Inr (Num (if b then 1 else 0))"
| "dateTime P (Some (JNum n)) = Inr (if \<bar>n\<bar> \<le> 8640000000000000 then Num n else NaN)"
| "dateTime P (Some (JStr s)) = Inr (parseDate P s)"
| "dateTime P (Some (JArr xs)) =
     (case js_String (JArr xs) of Inl e \<Rightarrow> Inl e | Inr s \<Rightarrow> Inr (parseDate P s))"
| "dateTime P (Some (JObj kvs)) =
     (case js_String (JObj kvs) of Inl e \<Rightarrow> Inl e | Inr s \<Rightarrow> Inr (parseDate P s))"

text \<open>
  \<^verbatim>\<open>compareCursor\<close>: both dates are read first; the ids are converted only when the
  dates are equal (a date \<^verbatim>\<open>NaN\<close> is equal to none).
\<close>

definition compareCursor :: "platform \<Rightarrow> json \<Rightarrow> json \<Rightarrow> exn + jsnum" where
  "compareCursor P a b =
     (case dateTime P (field a ''updatedAt'') of
        Inl e \<Rightarrow> Inl e
      | Inr da \<Rightarrow>
          (case dateTime P (field b ''updatedAt'') of
             Inl e \<Rightarrow> Inl e
           | Inr db \<Rightarrow>
               if \<not> num_eq da db then Inr (num_sub da db)
               else
                 (case js_String_opt (field a ''id'') of
                    Inl e \<Rightarrow> Inl e
                  | Inr sa \<Rightarrow>
                      (case js_String_opt (field b ''id'') of
                         Inl e \<Rightarrow> Inl e
                       | Inr sb \<Rightarrow> Inr (Num (localeCompare P sa sb))))))"

text \<open>
  \<^verbatim>\<open>all.sort(compareCursor)\<close>. The language fixes the result of a sort for a consistent
  comparator only: it is then the stable sorted arrangement, which insertion from the
  right computes. A comparator result \<^verbatim>\<open>NaN\<close> counts as 0. The exception of a
  comparison ends the sort; the pairs compared are those that insertion compares.
\<close>

fun nonpositive :: "jsnum \<Rightarrow> bool" where
  "nonpositive NaN = True"
| "nonpositive (Num n) = (n \<le> 0)"

fun insert_by :: "('a \<Rightarrow> 'a \<Rightarrow> exn + jsnum) \<Rightarrow> 'a \<Rightarrow> 'a list \<Rightarrow> exn + 'a list" where
  "insert_by cmp x [] = Inr [x]"
| "insert_by cmp x (y # ys) =
     (case cmp x y of
        Inl e \<Rightarrow> Inl e
      | Inr c \<Rightarrow>
          if nonpositive c then Inr (x # y # ys)
          else (case insert_by cmp x ys of Inl e \<Rightarrow> Inl e | Inr zs \<Rightarrow> Inr (y # zs)))"

fun sort_by :: "('a \<Rightarrow> 'a \<Rightarrow> exn + jsnum) \<Rightarrow> 'a list \<Rightarrow> exn + 'a list" where
  "sort_by cmp [] = Inr []"
| "sort_by cmp (x # xs) =
     (case sort_by cmp xs of Inl e \<Rightarrow> Inl e | Inr ys \<Rightarrow> insert_by cmp x ys)"

text \<open>\<^verbatim>\<open>findIndex\<close>; \<open>None\<close> is the result -1.\<close>

fun findIndex :: "('a \<Rightarrow> exn + bool) \<Rightarrow> 'a list \<Rightarrow> exn + nat option" where
  "findIndex p [] = Inr None"
| "findIndex p (x # xs) =
     (case p x of
        Inl e \<Rightarrow> Inl e
      | Inr b \<Rightarrow>
          if b then Inr (Some 0)
          else (case findIndex p xs of Inl e \<Rightarrow> Inl e | Inr r \<Rightarrow> Inr (map_option Suc r)))"

text \<open>
  \<^verbatim>\<open>xs.slice(start, end)\<close> for a start within the array: an end \<^verbatim>\<open>NaN\<close> is 0, a negative
  end counts from the back, an end past the array is its length.
\<close>

definition js_slice :: "'a list \<Rightarrow> nat \<Rightarrow> jsnum \<Rightarrow> 'a list" where
  "js_slice xs start stop =
     (let len = int (length xs);
          rel = (case stop of NaN \<Rightarrow> 0 | Num e \<Rightarrow> e);
          final = (if rel < 0 then max (len + rel) 0 else min rel len)
      in take (nat (final - int start)) (drop start xs))"

text \<open>
  \<^verbatim>\<open>s.split(",")\<close>: the parts of \<open>s\<close> between its commas, at least one part.
\<close>

fun split_comma :: "string \<Rightarrow> string list" where
  "split_comma [] = [[]]"
| "split_comma (c # cs) =
     (if c = CHR '','' then [] # split_comma cs
      else (case split_comma cs of [] \<Rightarrow> [[c]] | p # ps \<Rightarrow> (c # p) # ps))"

subsection \<open>Responses and handlers\<close>

text \<open>
  The body of a response: none, a plain text, the JSON text of a value, or the JSON
  text of the page \<^verbatim>\<open>{data, hasMore}\<close> of a listing.
\<close>

datatype body = NoBody | TextBody string | JsonBody json | PageBody "json list" bool

type_synonym response = "nat \<times> body"

text \<open>
  The cursor of a list request: \<open>afterDate\<close> is \<open>None\<close> for \<^verbatim>\<open>null\<close>, otherwise the
  time of the \<^verbatim>\<open>Date\<close>; \<open>afterIdVal\<close> likewise. \<open>after\<close> and \<open>afterId\<close> are the results of
  \<^verbatim>\<open>searchParams.get\<close>.
\<close>

definition parseCursor :: "platform \<Rightarrow> string option \<Rightarrow> string option \<Rightarrow> jsnum option \<times> string option" where
  "parseCursor P after afterId =
     (if afterId \<noteq> None \<and> afterId \<noteq> Some []
      then (if after \<noteq> None \<and> after \<noteq> Some [] then Some (parseDate P (the after)) else None, afterId)
      else if after \<noteq> None \<and> after \<noteq> Some []
      then (let parts = split_comma (the after)
            in if length parts \<ge> 2
               then (Some (parseDate P (parts ! 0)), Some (parts ! 1))
               else (Some (parseDate P (the after)), None))
      else (None, None))"

text \<open>
  The index of the first record of the page: with a date and an id the first record
  that is later than the date, or at the date with a greater id; with a date only the
  first record later than the date; without a date 0. When \<^verbatim>\<open>findIndex\<close> finds no record
  the index is the length of the list. \<open>laterThan\<close> and \<open>laterThanId\<close> are the two
  callbacks of \<^verbatim>\<open>findIndex\<close>; the id of a record is converted only at a record whose date
  is the date of the cursor.
\<close>

definition laterThan :: "platform \<Rightarrow> jsnum \<Rightarrow> json \<Rightarrow> exn + bool" where
  "laterThan P t e =
     (case dateTime P (field e ''updatedAt'') of
        Inl x \<Rightarrow> Inl x
      | Inr et \<Rightarrow> Inr (num_gt et t))"

definition laterThanId :: "platform \<Rightarrow> jsnum \<Rightarrow> string \<Rightarrow> json \<Rightarrow> exn + bool" where
  "laterThanId P t a e =
     (case dateTime P (field e ''updatedAt'') of
        Inl x \<Rightarrow> Inl x
      | Inr et \<Rightarrow>
          if num_gt et t then Inr True
          else if num_eq et t
          then (case js_String_opt (field e ''id'') of Inl x \<Rightarrow> Inl x | Inr s \<Rightarrow> Inr (str_gt s a))
          else Inr False)"

definition startIndexOf :: "platform \<Rightarrow> jsnum option \<Rightarrow> string option \<Rightarrow> json list \<Rightarrow> exn + nat" where
  "startIndexOf P afterDate afterIdVal all =
     (case afterDate of
        None \<Rightarrow> Inr 0
      | Some t \<Rightarrow>
          (case afterIdVal of
             Some a \<Rightarrow>
               (case findIndex (laterThanId P t a) all of
                  Inl x \<Rightarrow> Inl x
                | Inr None \<Rightarrow> Inr (length all)
                | Inr (Some i) \<Rightarrow> Inr i)
           | None \<Rightarrow>
               (case findIndex (laterThan P t) all of
                  Inl x \<Rightarrow> Inl x
                | Inr None \<Rightarrow> Inr (length all)
                | Inr (Some i) \<Rightarrow> Inr i)))"

text \<open>
  \<^verbatim>\<open>Math.min(Math.max(1, parseInt(size ?? "100", 10)), 1000)\<close>.
\<close>

definition pageSize :: "(string \<times> string) list \<Rightarrow> jsnum" where
  "pageSize query =
     Math_min (Math_max (Num 1) (parseInt10 (case map_of query ''size'' of None \<Rightarrow> ''100'' | Some s \<Rightarrow> s)))
       (Num 1000)"

text \<open>\<^verbatim>\<open>slice.length > size\<close>, false against \<^verbatim>\<open>NaN\<close>.\<close>

fun length_gt :: "nat \<Rightarrow> jsnum \<Rightarrow> bool" where
  "length_gt n NaN = False"
| "length_gt n (Num k) = (int n > k)"

text \<open>
  \<^verbatim>\<open>handleGet\<close>: the records of the store are read and sorted, the page starts at the
  start index and has one record more than the size when there is one, which only
  sets \<^verbatim>\<open>hasMore\<close>.
\<close>

definition handleGet :: "platform \<Rightarrow> fs \<Rightarrow> string \<Rightarrow> (string \<times> string) list \<Rightarrow> exn + response" where
  "handleGet P files storeName query =
     (let size = pageSize query;
          cursor = parseCursor P (map_of query ''after'') (map_of query ''after_id'')
      in case getAllEntities files storeName of
           Inl e \<Rightarrow> Inl e
         | Inr unsorted \<Rightarrow>
             (case sort_by (compareCursor P) unsorted of
                Inl e \<Rightarrow> Inl e
              | Inr all \<Rightarrow>
                  (case startIndexOf P (fst cursor) (snd cursor) all of
                     Inl e \<Rightarrow> Inl e
                   | Inr startIndex \<Rightarrow>
                       (let slice = js_slice all startIndex (num_add (num_add (Num (int startIndex)) size) (Num 1));
                            hasMore = length_gt (length slice) size;
                            data = (if hasMore then js_slice slice 0 size else slice)
                        in Inr (200, PageBody data hasMore)))))"

text \<open>
  \<^verbatim>\<open>handlePost\<close>, \<^verbatim>\<open>handlePut\<close> and \<^verbatim>\<open>handleDelete\<close> return the response and the store
  after the request. \<open>now\<close> is the time of the request.
\<close>

definition handlePost :: "fs \<Rightarrow> string \<Rightarrow> string \<Rightarrow> content \<Rightarrow> exn + response \<times> fs" where
  "handlePost files now storeName reqBody =
     (case reqBody of
        Malformed \<Rightarrow> Inr ((400, TextBody ''Bad Request''), files)
      | Json body \<Rightarrow>
          (case getProp body ''id'' of
             Inl e \<Rightarrow> Inl e
           | Inr None \<Rightarrow> Inr ((400, TextBody ''Bad Request''), files)
           | Inr (Some i) \<Rightarrow>
               if i = JNull then Inr ((400, TextBody ''Bad Request''), files)
               else
                 (case js_String i of
                    Inl e \<Rightarrow> Inl e
                  | Inr sid \<Rightarrow>
                      (case readEntity files storeName sid of
                         Inl e \<Rightarrow> Inl e
                       | Inr existing \<Rightarrow>
                           if truthy_opt existing then Inr ((409, TextBody ''Conflict''), files)
                           else
                             (let entity =
                                    assoc_set ''updatedAt'' (JStr now)
                                      (assoc_set ''version'' (JNum 1)
                                         (assoc_set ''id'' (JStr sid) (spread body)))
                              in case writeEntity files storeName entity of
                                   Inl e \<Rightarrow> Inl e
                                 | Inr files' \<Rightarrow> Inr ((204, NoBody), files'))))))"

definition handlePut :: "platform \<Rightarrow> fs \<Rightarrow> string \<Rightarrow> string \<Rightarrow> string \<Rightarrow> content \<Rightarrow> exn + response \<times> fs" where
  "handlePut P files now storeName i reqBody =
     (case readEntity files storeName i of
        Inl e \<Rightarrow> Inl e
      | Inr None \<Rightarrow> Inr ((404, NoBody), files)
      | Inr (Some existing) \<Rightarrow>
          if \<not> truthy existing then Inr ((404, NoBody), files)
          else
            (case reqBody of
               Malformed \<Rightarrow> Inr ((400, TextBody ''Bad Request''), files)
             | Json body \<Rightarrow>
                 (case plus_one (field existing ''version'') of
                    Inl e \<Rightarrow> Inl e
                  | Inr expectedVersion \<Rightarrow>
                      (case getProp body ''version'' of
                         Inl e \<Rightarrow> Inl e
                       | Inr v \<Rightarrow>
                           (case Number P v of
                              Inl e \<Rightarrow> Inl e
                            | Inr x \<Rightarrow>
                                if strict_neq x expectedVersion
                                then Inr ((409, JsonBody existing), files)
                                else
                                  (let entity =
                                         assoc_set ''updatedAt'' (JStr now)
                                           (with_prop ''version'' (json_of_plus expectedVersion)
                                              (with_prop ''id'' (field existing ''id'') (spread body)))
                                   in case writeEntity files storeName entity of
                                        Inl e \<Rightarrow> Inl e
                                      | Inr files' \<Rightarrow> Inr ((204, NoBody), files')))))))"

definition handleDelete :: "fs \<Rightarrow> string \<Rightarrow> string \<Rightarrow> string \<Rightarrow> exn + response \<times> fs" where
  "handleDelete files now storeName i =
     (case readEntity files storeName i of
        Inl e \<Rightarrow> Inl e
      | Inr None \<Rightarrow> Inr ((404, NoBody), files)
      | Inr (Some existing) \<Rightarrow>
          if \<not> truthy existing then Inr ((404, NoBody), files)
          else
            (let tombstone =
                   assoc_set ''updatedAt'' (JStr now)
                     (assoc_set ''version'' (JNum (- 1))
                        (with_prop ''id'' (field existing ''id'') []))
             in case writeEntity files storeName tombstone of
                  Inl e \<Rightarrow> Inl e
                | Inr files' \<Rightarrow> Inr ((204, NoBody), files')))"

subsection \<open>Routing\<close>

text \<open>
  A request as \<^verbatim>\<open>handleFetch\<close> sees it: the method, the non-empty segments of the URL's
  path, the decoded query parameters and the body.
\<close>

record request =
  reqMethod :: string
  segments :: "string list"
  query :: "(string \<times> string) list"
  reqBody :: content

fun parsePath :: "string list \<Rightarrow> (string \<times> string option) option" where
  "parsePath [s] = Some (s, None)"
| "parsePath [s, i] = Some (s, Some i)"
| "parsePath segs = None"

definition route :: "platform \<Rightarrow> fs \<Rightarrow> string \<Rightarrow> request \<Rightarrow> string \<Rightarrow> string option \<Rightarrow> exn + response \<times> fs" where
  "route P files now req storeName i =
     (case i of
        None \<Rightarrow>
          if reqMethod req = ''GET'' then
            (case handleGet P files storeName (query req) of
               Inl e \<Rightarrow> Inl e
             | Inr r \<Rightarrow> Inr (r, files))
          else if reqMethod req = ''POST'' then handlePost files now storeName (reqBody req)
          else Inr ((405, TextBody ''Method Not Allowed''), files)
      | Some i' \<Rightarrow>
          if reqMethod req = ''GET'' then
            (case readEntity files storeName i' of
               Inl e \<Rightarrow> Inl e
             | Inr None \<Rightarrow> Inr ((404, NoBody), files)
             | Inr (Some entity) \<Rightarrow>
                 if \<not> truthy entity then Inr ((404, NoBody), files)
                 else Inr ((200, JsonBody entity), files))
          else if reqMethod req = ''PUT'' then handlePut P files now storeName i' (reqBody req)
          else if reqMethod req = ''DELETE'' then handleDelete files now storeName i'
          else Inr ((405, TextBody ''Method Not Allowed''), files))"

text \<open>
  \<^verbatim>\<open>handleFetch\<close>: an exception of a handler becomes the answer 500. Every handler writes
  at most once, as its last effect, so the store after an exception is the store before
  the request.
\<close>

definition handleFetch :: "platform \<Rightarrow> fs \<Rightarrow> string \<Rightarrow> request \<Rightarrow> response \<times> fs" where
  "handleFetch P files now req =
     (if reqMethod req = ''OPTIONS'' then ((204, NoBody), files)
      else
        (case parsePath (segments req) of
           None \<Rightarrow> ((404, JsonBody (JObj [(''error'', JStr ''Not found'')])), files)
         | Some (storeName, i) \<Rightarrow>
             (case assertValidStoreName storeName of
                Inl e \<Rightarrow> ((400, JsonBody (JObj [(''error'', JStr ''Invalid store name'')])), files)
              | Inr _ \<Rightarrow>
                  (case route P files now req storeName i of
                     Inl e \<Rightarrow> ((500, TextBody ''Internal Server Error''), files)
                   | Inr r \<Rightarrow> r))))"

subsection \<open>A reference platform for evaluation\<close>

text \<open>
  The closed examples below need the platform's functions at a few arguments. The
  reference platform computes them there as the JavaScript engine does:
  \<^item> \<open>ref_parseDate\<close> is \<^verbatim>\<open>Date.parse\<close> on a string of the form
    \<^verbatim>\<open>YYYY-MM-DDTHH:mm:ss.sssZ\<close>, the form \<^verbatim>\<open>toISOString\<close> produces, with a valid calendar
    date and time of day; it is \<^verbatim>\<open>NaN\<close> on every other string;
  \<^item> \<open>ref_localeCompare\<close> is the root collation on strings of ASCII letters and
    digits: the strings are compared without regard to case first, and when they are
    equal up to case the first difference in case decides, lower case first;
  \<^item> \<open>ref_stringToNumber\<close> is \<^verbatim>\<open>Number\<close> on a string that, white space trimmed, is
    empty or an optionally signed run of decimal digits; it is \<^verbatim>\<open>NaN\<close> on every other
    string.
  The general theorems do not use the reference platform: they hold for every
  platform.
\<close>

definition num_at :: "string \<Rightarrow> nat \<Rightarrow> nat \<Rightarrow> int" where
  "num_at s i n = int (digits_value 0 (take n (drop i s)))"

definition days_from_civil :: "int \<Rightarrow> int \<Rightarrow> int \<Rightarrow> int" where
  "days_from_civil y m d =
     (let y' = (if m \<le> 2 then y - 1 else y);
          era = y' div 400;
          yoe = y' mod 400;
          doy = (153 * (if m > 2 then m - 3 else m + 9) + 2) div 5 + d - 1;
          doe = yoe * 365 + yoe div 4 - yoe div 100 + doy
      in era * 146097 + doe - 719468)"

definition days_in_month :: "int \<Rightarrow> int \<Rightarrow> int" where
  "days_in_month y m =
     (if m = 2 then (if y mod 4 = 0 \<and> (y mod 100 \<noteq> 0 \<or> y mod 400 = 0) then 29 else 28)
      else if m = 4 \<or> m = 6 \<or> m = 9 \<or> m = 11 then 30 else 31)"

definition ref_parseDate :: "string \<Rightarrow> jsnum" where
  "ref_parseDate s =
     (if length s = 24
         \<and> list_all is_digit (take 4 s @ take 2 (drop 5 s) @ take 2 (drop 8 s) @ take 2 (drop 11 s)
              @ take 2 (drop 14 s) @ take 2 (drop 17 s) @ take 3 (drop 20 s))
         \<and> [s ! 4, s ! 7, s ! 10, s ! 13, s ! 16, s ! 19, s ! 23] = ''--T::.Z''
      then (let y = num_at s 0 4; m = num_at s 5 2; d = num_at s 8 2;
                h = num_at s 11 2; mi = num_at s 14 2; sec = num_at s 17 2; ms = num_at s 20 3
            in if 1 \<le> m \<and> m \<le> 12 \<and> 1 \<le> d \<and> d \<le> days_in_month y m \<and> h \<le> 23 \<and> mi \<le> 59 \<and> sec \<le> 59
               then Num ((((days_from_civil y m d * 24 + h) * 60 + mi) * 60 + sec) * 1000 + ms)
               else NaN)
      else NaN)"

definition fold_case :: "char \<Rightarrow> nat" where
  "fold_case c = (let n = (of_char c :: nat) in if 65 \<le> n \<and> n \<le> 90 then n + 32 else n)"

definition case_weight :: "char \<Rightarrow> nat" where
  "case_weight c = (let n = (of_char c :: nat) in if 65 \<le> n \<and> n \<le> 90 then 1 else 0)"

fun compare_lex :: "nat list \<Rightarrow> nat list \<Rightarrow> int" where
  "compare_lex [] [] = 0"
| "compare_lex [] (y # ys) = - 1"
| "compare_lex (x # xs) [] = 1"
| "compare_lex (x # xs) (y # ys) = (if x < y then - 1 else if y < x then 1 else compare_lex xs ys)"

definition ref_localeCompare :: "string \<Rightarrow> string \<Rightarrow> int" where
  "ref_localeCompare a b =
     (let p = compare_lex (map fold_case a) (map fold_case b)
      in if p \<noteq> 0 then p else compare_lex (map case_weight a) (map case_weight b))"

definition ref_stringToNumber :: "string \<Rightarrow> jsnum" where
  "ref_stringToNumber s =
     (let t = rev (dropWhile js_space (rev (dropWhile js_space s)));
          neg = (t \<noteq> [] \<and> hd t = CHR ''-'');
          u = (if t \<noteq> [] \<and> (hd t = CHR ''-'' \<or> hd t = CHR ''+'') then tl t else t)
      in if t = [] then Num 0
         else if u \<noteq> [] \<and> list_all is_digit u
         then Num (double_of ((if neg then - 1 else 1) * int (digits_value 0 u)))
         else NaN)"

definition ref_platform :: platform where
  "ref_platform =
     \<lparr> parseDate = ref_parseDate, localeCompare = ref_localeCompare,
       stringToNumber = ref_stringToNumber \<rparr>"

subsection \<open>Records in the store\<close>

text \<open>
  A record is stored under the id \<open>i\<close> when reading \<open>i\<close> returns it, it is truthy and the
  string in its own \<^verbatim>\<open>id\<close> field leads to the same file. Every record the handlers
  write is stored under its id in this sense.
\<close>

definition stored_at :: "fs \<Rightarrow> string \<Rightarrow> string \<Rightarrow> json \<Rightarrow> bool" where
  "stored_at files storeName i e =
     (readEntity files storeName i = Inr (Some e) \<and> truthy e \<and>
      (case field e ''id'' of Some (JStr r) \<Rightarrow> safeId r = safeId i | _ \<Rightarrow> False))"

definition is_tombstone :: "json \<Rightarrow> bool" where
  "is_tombstone e = (field e ''version'' = Some (JNum (- 1)))"

text \<open>The payload of a record or a request body: every field but the three the store sets.\<close>

definition payload_key :: "string \<Rightarrow> bool" where
  "payload_key k = (k \<noteq> ''id'' \<and> k \<noteq> ''version'' \<and> k \<noteq> ''updatedAt'')"

subsection \<open>Example data\<close>

definition t0 :: string where
  "t0 = ''2024-01-01T00:00:00.000Z''"

definition t1 :: string where
  "t1 = ''2024-01-01T00:00:00.001Z''"

definition memo_a :: json where
  "memo_a = JObj [(''id'', JStr ''a''), (''version'', JNum 1), (''updatedAt'', JStr t0), (''text'', JStr ''x'')]"

definition tomb_d :: json where
  "tomb_d = JObj [(''id'', JStr ''d''), (''version'', JNum (- 1)), (''updatedAt'', JStr t0)]"

definition store1 :: fs where
  "store1 = [((''memos'', ''a''), Json memo_a), ((''memos'', ''d''), Json tomb_d)]"

text \<open>A record whose version is \<open>2 ^ 53\<close>, the first integer whose successor is no double.\<close>

definition memo_big :: json where
  "memo_big = JObj [(''id'', JStr ''a''), (''version'', JNum 9007199254740992), (''updatedAt'', JStr t0)]"

definition store_big :: fs where
  "store_big = [((''memos'', ''a''), Json memo_big)]"

definition memo_new :: "(string \<times> json) list" where
  "memo_new = [(''id'', JStr ''b''), (''version'', JNum 9), (''updatedAt'', JStr ''yesterday''),
               (''text'', JStr ''hi'')]"

text \<open>
  A file whose content does not parse, at the path of the id \<open>i\<close>; and the store without
  the file at a path.
\<close>

definition garbage_at :: "fs \<Rightarrow> string \<Rightarrow> string \<Rightarrow> bool" where
  "garbage_at files storeName i =
     (case entityPath storeName i of
        Inl e \<Rightarrow> False
      | Inr p \<Rightarrow> map_of files p = Some Malformed)"

definition remove_file :: "path \<Rightarrow> fs \<Rightarrow> fs" where
  "remove_file p files = filter (\<lambda>f. fst f \<noteq> p) files"

definition store2 :: fs where
  "store2 = [((''memos'', ''a''), Json memo_a), ((''memos'', ''g''), Malformed)]"

definition memo_path :: "(string \<times> json) list" where
  "memo_path = [(''id'', JStr ''x/y''), (''text'', JStr ''hi'')]"

subsection \<open>Fetching the whole feed\<close>

text \<open>
  The client of the repository (\<^verbatim>\<open>buildFetchParams\<close> in its \<^verbatim>\<open>db.js\<close>) continues a listing
  with \<^verbatim>\<open>after\<close> = the \<^verbatim>\<open>updatedAt\<close> and \<^verbatim>\<open>after_id\<close> = the string of the \<^verbatim>\<open>id\<close> of the last
  record it received. Both values are converted to strings; when a conversion throws
  (\<open>cursor_fails\<close>) the client builds no cursor and its fetch ends with the exception.
\<close>

definition the_string :: "exn + string \<Rightarrow> string" where
  "the_string r = (case r of Inl x \<Rightarrow> [] | Inr s \<Rightarrow> s)"

definition cursor_fails :: "json \<Rightarrow> bool" where
  "cursor_fails e =
     (isl (js_String_opt (field e ''updatedAt'')) \<or> isl (js_String_opt (field e ''id'')))"

definition cursor_of :: "json \<Rightarrow> (string \<times> string) list" where
  "cursor_of e =
     [(''after'', the_string (js_String_opt (field e ''updatedAt''))),
      (''after_id'', the_string (js_String_opt (field e ''id'')))]"

text \<open>
  Listing page after page until \<^verbatim>\<open>hasMore\<close> is false, each request carrying the cursor
  of the last record of the page before. The first argument bounds the number of
  requests; \<open>None\<close> is a listing that failed or did not end within the bound.
\<close>

fun fetch_all :: "nat \<Rightarrow> platform \<Rightarrow> fs \<Rightarrow> string \<Rightarrow> string \<Rightarrow> (string \<times> string) list \<Rightarrow> json list option" where
  "fetch_all 0 P files storeName sz cursor = None"
| "fetch_all (Suc n) P files storeName sz cursor =
     (case handleGet P files storeName ((''size'', sz) # cursor) of
        Inr (st, PageBody data hasMore) \<Rightarrow>
          if hasMore \<and> data \<noteq> []
          then (if cursor_fails (last data) then None
                else map_option ((@) data) (fetch_all n P files storeName sz (cursor_of (last data))))
          else Some data
      | _ \<Rightarrow> None)"

definition rec_a :: json where
  "rec_a = JObj [(''id'', JStr ''a''), (''version'', JNum 1), (''updatedAt'', JStr t0)]"

definition rec_B :: json where
  "rec_B = JObj [(''id'', JStr ''B''), (''version'', JNum 1), (''updatedAt'', JStr t0)]"

definition store_aB :: fs where
  "store_aB = [((''memos'', ''a''), Json rec_a), ((''memos'', ''B''), Json rec_B)]"

definition rec_comma :: json where
  "rec_comma = JObj [(''id'', JStr ''a,b''), (''version'', JNum 1), (''updatedAt'', JStr t0)]"

definition store_comma :: fs where
  "store_comma = [((''memos'', ''a,b''), Json rec_comma)]"

subsection \<open>Stores written by the handlers\<close>

text \<open>
  In a consistent store every file that holds a truthy value holds an object whose
  \<^verbatim>\<open>id\<close> is a string that leads to that very file. Files that do not parse are allowed.
\<close>

definition consistent_file :: "path \<times> content \<Rightarrow> bool" where
  "consistent_file f =
     (case snd f of
        Malformed \<Rightarrow> True
      | Json e \<Rightarrow>
          \<not> truthy e \<or>
          (case field e ''id'' of Some (JStr r) \<Rightarrow> safeId r = snd (fst f) | _ \<Rightarrow> False))"

definition consistent :: "fs \<Rightarrow> bool" where
  "consistent files = list_all consistent_file files"

subsection \<open>The order of the feed\<close>

text \<open>
  The time and the id string of a record whose conversions do not throw (\<^verbatim>\<open>NaN\<close> and
  the empty string stand in where they do).
\<close>

definition time_of :: "platform \<Rightarrow> json \<Rightarrow> jsnum" where
  "time_of P e = (case dateTime P (field e ''updatedAt'') of Inl x \<Rightarrow> NaN | Inr t \<Rightarrow> t)"

definition id_of :: "json \<Rightarrow> string" where
  "id_of e = the_string (js_String_opt (field e ''id''))"

text \<open>
  The cursor test of \<^verbatim>\<open>handleGet\<close>: the record \<open>e\<close> comes after the record \<open>c\<close> of the
  cursor.
\<close>

definition after_cursor :: "platform \<Rightarrow> json \<Rightarrow> json \<Rightarrow> bool" where
  "after_cursor P c e =
     (num_gt (time_of P e) (time_of P c) \<or>
      (num_eq (time_of P e) (time_of P c) \<and> str_gt (id_of e) (id_of c)))"

text \<open>
  A record as the server writes it: \<^verbatim>\<open>updatedAt\<close> is a string that is a valid date, \<^verbatim>\<open>id\<close>
  is a string, and neither is empty.
\<close>

definition feed_record :: "platform \<Rightarrow> json \<Rightarrow> bool" where
  "feed_record P e =
     ((case field e ''updatedAt'' of Some (JStr u) \<Rightarrow> u \<noteq> [] \<and> parseDate P u \<noteq> NaN | _ \<Rightarrow> False) \<and>
      (case field e ''id'' of Some (JStr r) \<Rightarrow> r \<noteq> [] | _ \<Rightarrow> False))"

text \<open>
  A platform whose \<^verbatim>\<open>localeCompare\<close> orders strings as the comparison of the code units
  does; and one such platform.
\<close>

definition code_unit_collation :: "platform \<Rightarrow> bool" where
  "code_unit_collation P =
     (\<forall>a b. (localeCompare P a b < 0 \<longleftrightarrow> str_gt b a) \<and> (localeCompare P a b > 0 \<longleftrightarrow> str_gt a b))"

definition code_unit_compare :: "string \<Rightarrow> string \<Rightarrow> int" where
  "code_unit_compare a b = (if str_gt b a then - 1 else if str_gt a b then 1 else 0)"

definition code_unit_platform :: platform where
  "code_unit_platform =
     \<lparr> parseDate = ref_parseDate, localeCompare = code_unit_compare,
       stringToNumber = ref_stringToNumber \<rparr>"

section \<open>Properties\<close>

subsection \<open>Files and paths\<close>

lemma map_of_assoc_set: "map_of (assoc_set k v xs) = (map_of xs)(k \<mapsto> v)"
  by (induction xs) auto

lemma safeId_idem: "safeId (safeId i) = safeId i"
  by (simp add: safeId_def)

lemma entityPath_Inr:
  "entityPath s i = Inr p \<longleftrightarrow> (valid_store_name s \<and> safeId i \<noteq> [] \<and> p = (s, safeId i))"
  by (auto simp: entityPath_def assertValidStoreName_def valid_store_name_def)

lemma entityPath_cong: "safeId i = safeId j \<Longrightarrow> entityPath s i = entityPath s j"
  by (simp add: entityPath_def split: sum.splits)

lemma readEntity_cong: "safeId i = safeId j \<Longrightarrow> readEntity files s i = readEntity files s j"
  using entityPath_cong [of i j s] by (simp add: readEntity_def)

lemma readEntity_Some:
  "readEntity files s i = Inr (Some e) \<longleftrightarrow>
     (valid_store_name s \<and> safeId i \<noteq> [] \<and> map_of files (s, safeId i) = Some (Json e))"
  by (auto simp: readEntity_def entityPath_def assertValidStoreName_def valid_store_name_def
      split: option.splits content.splits)

lemma readEntity_Inr_valid:
  "readEntity files s i = Inr x \<Longrightarrow> valid_store_name s \<and> safeId i \<noteq> []"
  by (auto simp: readEntity_def entityPath_def assertValidStoreName_def valid_store_name_def
      split: if_splits)

lemma writeEntity_Inr:
  "valid_store_name s \<Longrightarrow> map_of E ''id'' = Some (JStr r) \<Longrightarrow> safeId r \<noteq> [] \<Longrightarrow>
   writeEntity files s E = Inr (assoc_set (s, safeId r) (Json (JObj E)) files)"
  by (simp add: writeEntity_def entityPath_def assertValidStoreName_def valid_store_name_def)

lemma readEntity_after_write:
  "valid_store_name s \<Longrightarrow> safeId i \<noteq> [] \<Longrightarrow>
   readEntity (assoc_set (s, safeId i) (Json v) files) s i = Inr (Some v)"
  by (simp add: readEntity_Some map_of_assoc_set)

lemma getProp_field: "b \<noteq> JNull \<Longrightarrow> getProp b k = Inr (field b k)"
  by (cases b) simp_all

lemma stored_atD:
  assumes "stored_at files s i e"
  obtains r where "readEntity files s i = Inr (Some e)" "truthy e" "field e ''id'' = Some (JStr r)"
    "safeId r = safeId i" "valid_store_name s" "safeId i \<noteq> []"
proof -
  from assms have rd: "readEntity files s i = Inr (Some e)" and tr: "truthy e"
    by (simp_all add: stored_at_def)
  from assms obtain r where "field e ''id'' = Some (JStr r)" "safeId r = safeId i"
    by (auto simp: stored_at_def split: option.splits json.splits)
  with rd tr that show thesis
    by (simp add: readEntity_Some)
qed

lemma is_tombstone_truthy: "is_tombstone e \<Longrightarrow> truthy e"
  by (cases e) (simp_all add: is_tombstone_def)

subsection \<open>Delete\<close>

lemma handleDelete_stored:
  assumes "stored_at files s i e" and "field e ''id'' = Some (JStr r)"
  shows "handleDelete files now s i =
     Inr ((204, NoBody),
          assoc_set (s, safeId i)
            (Json (JObj [(''id'', JStr r), (''version'', JNum (- 1)), (''updatedAt'', JStr now)])) files)"
proof -
  let ?T = "[(''id'', JStr r), (''version'', JNum (- 1)), (''updatedAt'', JStr now)]"
  from assms(1) obtain r' where st: "readEntity files s i = Inr (Some e)" "truthy e"
    "field e ''id'' = Some (JStr r')" "safeId r' = safeId i" "valid_store_name s" "safeId i \<noteq> []"
    by (rule stored_atD)
  with assms(2) have r: "safeId r = safeId i" by simp
  have "writeEntity files s ?T = Inr (assoc_set (s, safeId i) (Json (JObj ?T)) files)"
    using writeEntity_Inr [of s ?T r files] st(5,6) r by simp
  with st(1,2) assms(2) show ?thesis
    by (simp add: handleDelete_def)
qed

text \<open>
  Claim C4. Deleting a record stored under \<open>i\<close> answers 204 and leaves under \<open>i\<close> the
  tombstone with exactly the fields \<^verbatim>\<open>id\<close> (as before), \<^verbatim>\<open>version\<close> = -1 and
  \<^verbatim>\<open>updatedAt\<close> = the time of the request, no other file being touched; deleting an id
  under which nothing is stored answers 404 and changes nothing; deleting a tombstone
  answers 204 again and the tombstone differs from the old one in \<^verbatim>\<open>updatedAt\<close> only.
\<close>

theorem delete_tombstone:
  "(stored_at files storeName i e \<longrightarrow>
      (\<exists>r files'. field e ''id'' = Some (JStr r) \<and>
         handleDelete files now storeName i = Inr ((204, NoBody), files') \<and>
         readEntity files' storeName i =
           Inr (Some (JObj [(''id'', JStr r), (''version'', JNum (- 1)), (''updatedAt'', JStr now)])) \<and>
         (\<forall>q. q \<noteq> (storeName, safeId i) \<longrightarrow> map_of files' q = map_of files q)))
   \<and> (readEntity files storeName j = Inr None \<longrightarrow>
        handleDelete files now storeName j = Inr ((404, NoBody), files))
   \<and> (stored_at files storeName k
         (JObj [(''id'', JStr d), (''version'', JNum (- 1)), (''updatedAt'', JStr t)]) \<longrightarrow>
        (\<exists>files'. handleDelete files now storeName k = Inr ((204, NoBody), files') \<and>
           readEntity files' storeName k =
             Inr (Some (JObj [(''id'', JStr d), (''version'', JNum (- 1)), (''updatedAt'', JStr now)]))))"
proof (intro conjI impI)
  assume st: "stored_at files storeName i e"
  then obtain r where r: "field e ''id'' = Some (JStr r)"
    and v: "valid_store_name storeName" "safeId i \<noteq> []"
    by (rule stored_atD)
  let ?T = "JObj [(''id'', JStr r), (''version'', JNum (- 1)), (''updatedAt'', JStr now)]"
  have h: "handleDelete files now storeName i =
      Inr ((204, NoBody), assoc_set (storeName, safeId i) (Json ?T) files)"
    using st r by (rule handleDelete_stored)
  have rd: "readEntity (assoc_set (storeName, safeId i) (Json ?T) files) storeName i = Inr (Some ?T)"
    using v by (rule readEntity_after_write)
  show "\<exists>r files'. field e ''id'' = Some (JStr r) \<and>
         handleDelete files now storeName i = Inr ((204, NoBody), files') \<and>
         readEntity files' storeName i =
           Inr (Some (JObj [(''id'', JStr r), (''version'', JNum (- 1)), (''updatedAt'', JStr now)])) \<and>
         (\<forall>q. q \<noteq> (storeName, safeId i) \<longrightarrow> map_of files' q = map_of files q)"
    using r h rd by (simp add: map_of_assoc_set)
next
  assume "readEntity files storeName j = Inr None"
  then show "handleDelete files now storeName j = Inr ((404, NoBody), files)"
    by (simp add: handleDelete_def)
next
  let ?e = "JObj [(''id'', JStr d), (''version'', JNum (- 1)), (''updatedAt'', JStr t)]"
  let ?T = "JObj [(''id'', JStr d), (''version'', JNum (- 1)), (''updatedAt'', JStr now)]"
  assume st: "stored_at files storeName k ?e"
  then have v: "valid_store_name storeName" "safeId k \<noteq> []"
    by (auto elim: stored_atD)
  have h: "handleDelete files now storeName k =
      Inr ((204, NoBody), assoc_set (storeName, safeId k) (Json ?T) files)"
    using st by (rule handleDelete_stored) simp
  have rd: "readEntity (assoc_set (storeName, safeId k) (Json ?T) files) storeName k = Inr (Some ?T)"
    using v by (rule readEntity_after_write)
  show "\<exists>files'. handleDelete files now storeName k = Inr ((204, NoBody), files') \<and>
           readEntity files' storeName k = Inr (Some ?T)"
    using h rd by simp
qed

lemma valid_memos: "valid_store_name ''memos''"
  by (simp add: valid_store_name_def store_char_def)

lemma safeId_plain [simp]: "safeId ''a'' = ''a''" "safeId ''d'' = ''d''" "safeId ''zz'' = ''zz''"
  by (simp_all add: safeId_def)

lemma stored_memo_a: "stored_at store1 ''memos'' ''a'' memo_a"
  by (simp add: stored_at_def readEntity_Some valid_memos store1_def memo_a_def)

lemma stored_tomb_d: "stored_at store1 ''memos'' ''d'' tomb_d"
  by (simp add: stored_at_def readEntity_Some valid_memos store1_def tomb_d_def)

lemma absent_zz: "readEntity store1 ''memos'' ''zz'' = Inr None"
  using valid_memos
  by (simp add: readEntity_def entityPath_def assertValidStoreName_def valid_store_name_def store1_def)

theorem delete_tombstone_witness:
  "stored_at store1 ''memos'' ''a'' memo_a
   \<and> readEntity store1 ''memos'' ''zz'' = Inr None
   \<and> stored_at store1 ''memos'' ''d''
        (JObj [(''id'', JStr ''d''), (''version'', JNum (- 1)), (''updatedAt'', JStr t0)])
   \<and> (\<exists>r files'. field memo_a ''id'' = Some (JStr r) \<and>
         handleDelete store1 t1 ''memos'' ''a'' = Inr ((204, NoBody), files') \<and>
         readEntity files' ''memos'' ''a'' =
           Inr (Some (JObj [(''id'', JStr r), (''version'', JNum (- 1)), (''updatedAt'', JStr t1)])) \<and>
         (\<forall>q. q \<noteq> (''memos'', safeId ''a'') \<longrightarrow> map_of files' q = map_of store1 q))
   \<and> handleDelete store1 t1 ''memos'' ''zz'' = Inr ((404, NoBody), store1)
   \<and> (\<exists>files'. handleDelete store1 t1 ''memos'' ''d'' = Inr ((204, NoBody), files') \<and>
         readEntity files' ''memos'' ''d'' =
           Inr (Some (JObj [(''id'', JStr ''d''), (''version'', JNum (- 1)), (''updatedAt'', JStr t1)])))"
proof -
  have d: "stored_at store1 ''memos'' ''d''
        (JObj [(''id'', JStr ''d''), (''version'', JNum (- 1)), (''updatedAt'', JStr t0)])"
    using stored_tomb_d by (simp add: tomb_d_def)
  show ?thesis
    using delete_tombstone [of store1 "''memos''" "''a''" memo_a t1 "''zz''" "''d''" "''d''" t0]
      stored_memo_a absent_zz d
    by blast
qed

subsection \<open>Update\<close>

lemma double_abs_2_53: "double_abs (2 ^ 53) = 2 ^ 53"
  by code_simp

lemma double_of_safe: "\<bar>x\<bar> \<le> 2 ^ 53 \<Longrightarrow> double_of x = x"
proof -
  assume a: "\<bar>x\<bar> \<le> 2 ^ 53"
  consider "x = 2 ^ 53" | "x = - (2 ^ 53)" | "\<bar>x\<bar> < 2 ^ 53"
    using a by linarith
  then show ?thesis
  proof cases
    case 1
    then show ?thesis using double_abs_2_53 by (simp add: double_of_def)
  next
    case 2
    then show ?thesis using double_abs_2_53 by (simp add: double_of_def)
  next
    case 3
    then show ?thesis by (auto simp: double_of_def double_abs_def)
  qed
qed

lemma plus_one_safe:
  assumes "\<bar>v\<bar> < 2 ^ 53"
  shows "plus_one (Some (JNum v)) = Inr (PNum (Num (v + 1)))"
proof -
  from assms have "\<bar>v + 1\<bar> \<le> 2 ^ 53" by simp
  then have "double_of (v + 1) = v + 1" by (rule double_of_safe)
  then show ?thesis by simp
qed

lemma strict_neq_Num: "strict_neq x (PNum (Num n)) \<longleftrightarrow> x \<noteq> Num n"
  by (cases x) auto

lemma handlePut_absent:
  "readEntity files s i = Inr None \<Longrightarrow> handlePut P files now s i body = Inr ((404, NoBody), files)"
  by (simp add: handlePut_def)

lemma handlePut_conflict:
  assumes "readEntity files s i = Inr (Some e)" and "truthy e" and "b \<noteq> JNull"
    and "plus_one (field e ''version'') = Inr ev"
    and "Number P (field b ''version'') = Inr x"
    and "strict_neq x ev"
  shows "handlePut P files now s i (Json b) = Inr ((409, JsonBody e), files)"
  using assms by (simp add: handlePut_def getProp_field)

lemma Number_Num_object:
  assumes "Number P (field b ''version'') = Inr (Num n)"
  obtains kvs where "b = JObj kvs"
  using assms by (cases b) simp_all

lemma handlePut_accept:
  assumes st: "stored_at files s i e" and r: "field e ''id'' = Some (JStr r)"
    and v: "field e ''version'' = Some (JNum v)" and safe: "\<bar>v\<bar> < 2 ^ 53"
    and n: "Number P (field b ''version'') = Inr (Num (v + 1))"
  shows "handlePut P files now s i (Json b) =
     Inr ((204, NoBody),
          assoc_set (s, safeId i)
            (Json (JObj (assoc_set ''updatedAt'' (JStr now)
                          (assoc_set ''version'' (JNum (v + 1))
                             (assoc_set ''id'' (JStr r) (spread b)))))) files)"
proof -
  let ?E = "assoc_set ''updatedAt'' (JStr now)
              (assoc_set ''version'' (JNum (v + 1)) (assoc_set ''id'' (JStr r) (spread b)))"
  from st obtain r' where rd: "readEntity files s i = Inr (Some e)" "truthy e"
    and r': "field e ''id'' = Some (JStr r')" "safeId r' = safeId i"
    and ok: "valid_store_name s" "safeId i \<noteq> []"
    by (rule stored_atD)
  from r r' have sr: "safeId r = safeId i" by simp
  from n obtain kvs where b: "b = JObj kvs" by (rule Number_Num_object)
  have pl: "plus_one (field e ''version'') = Inr (PNum (Num (v + 1)))"
    using v plus_one_safe [OF safe] by simp
  have "map_of ?E ''id'' = Some (JStr r)"
    by (simp add: map_of_assoc_set)
  then have w: "writeEntity files s ?E = Inr (assoc_set (s, safeId i) (Json (JObj ?E)) files)"
    using writeEntity_Inr [of s ?E r files] ok sr by simp
  show ?thesis
    using rd r pl n w b by (simp add: handlePut_def)
qed

text \<open>
  Claim C1, as stated, fails where the comparison of the versions is not the
  comparison of two integers. The record \<open>a\<close> of \<open>store1\<close> has version 1; an update whose
  \<^verbatim>\<open>version\<close> is the object \<^verbatim>\<open>{"toString": 1}\<close> does not submit version 2, and the answer
  is not the conflict: \<^verbatim>\<open>Number\<close> throws a \<^verbatim>\<open>TypeError\<close> and the server answers 500. The
  record \<open>a\<close> of \<open>store_big\<close> has version \<open>2 ^ 53\<close>; an update that submits \<open>2 ^ 53\<close> again,
  which is not the stored version plus 1, is accepted, because the sum
  \<^verbatim>\<open>existing.version + 1\<close> is rounded to \<open>2 ^ 53\<close>.
\<close>

theorem update_version_counterexample:
  "stored_at store1 ''memos'' ''a'' memo_a \<and> field memo_a ''version'' = Some (JNum 1) \<and>
   handlePut ref_platform store1 t1 ''memos'' ''a''
     (Json (JObj [(''version'', JObj [(''toString'', JNum 1)])])) = Inl TypeError \<and>
   handleFetch ref_platform store1 t1
     \<lparr>reqMethod = ''PUT'', segments = [''memos'', ''a''], query = [],
      reqBody = Json (JObj [(''version'', JObj [(''toString'', JNum 1)])])\<rparr> =
     ((500, TextBody ''Internal Server Error''), store1) \<and>
   stored_at store_big ''memos'' ''a'' memo_big \<and>
   field memo_big ''version'' = Some (JNum 9007199254740992) \<and>
   handlePut ref_platform store_big t1 ''memos'' ''a'' (Json (JObj [(''version'', JNum 9007199254740992)])) =
     Inr ((204, NoBody),
          [((''memos'', ''a''),
            Json (JObj [(''version'', JNum 9007199254740992), (''id'', JStr ''a''),
                        (''updatedAt'', JStr t1)]))])"
  by code_simp

text \<open>
  Claim C1, amended. An update of an id under which nothing is stored answers 404. For
  a record stored under \<open>i\<close> whose version \<open>v\<close> is below \<open>2 ^ 53\<close> in absolute value, and a
  body other than \<^verbatim>\<open>null\<close> whose \<^verbatim>\<open>version\<close> is converted by \<^verbatim>\<open>Number\<close> without an exception,
  to the submitted version \<open>x\<close>: when \<open>x\<close> is not \<open>v + 1\<close>, the answer is 409 with the stored
  record as its body and the store is unchanged; when \<open>x\<close> is \<open>v + 1\<close>, the answer is 204
  and the record under \<open>i\<close> has the stored \<^verbatim>\<open>id\<close>, version \<open>v + 1\<close>, \<^verbatim>\<open>updatedAt\<close> = the time of
  the request and the payload fields of the body, every other file being as before.
\<close>

theorem update_version_check:
  "(readEntity files storeName j = Inr None \<longrightarrow>
      handlePut P files now storeName j body = Inr ((404, NoBody), files))
   \<and> (stored_at files storeName i e \<and> field e ''version'' = Some (JNum v) \<and> \<bar>v\<bar> < 2 ^ 53 \<and>
       b \<noteq> JNull \<and> Number P (field b ''version'') = Inr x \<and> x \<noteq> Num (v + 1) \<longrightarrow>
         handlePut P files now storeName i (Json b) = Inr ((409, JsonBody e), files))
   \<and> (stored_at files storeName i e \<and> field e ''version'' = Some (JNum v) \<and> \<bar>v\<bar> < 2 ^ 53 \<and>
       Number P (field c ''version'') = Inr (Num (v + 1)) \<longrightarrow>
         (\<exists>r E files'.
            field e ''id'' = Some (JStr r) \<and>
            handlePut P files now storeName i (Json c) = Inr ((204, NoBody), files') \<and>
            readEntity files' storeName i = Inr (Some (JObj E)) \<and>
            map_of E ''id'' = Some (JStr r) \<and>
            map_of E ''version'' = Some (JNum (v + 1)) \<and>
            map_of E ''updatedAt'' = Some (JStr now) \<and>
            (\<forall>k. payload_key k \<longrightarrow> map_of E k = field c k) \<and>
            (\<forall>q. q \<noteq> (storeName, safeId i) \<longrightarrow> map_of files' q = map_of files q)))"
proof (intro conjI impI)
  assume "readEntity files storeName j = Inr None"
  then show "handlePut P files now storeName j body = Inr ((404, NoBody), files)"
    by (rule handlePut_absent)
next
  assume a: "stored_at files storeName i e \<and> field e ''version'' = Some (JNum v) \<and> \<bar>v\<bar> < 2 ^ 53 \<and>
       b \<noteq> JNull \<and> Number P (field b ''version'') = Inr x \<and> x \<noteq> Num (v + 1)"
  then have rd: "readEntity files storeName i = Inr (Some e)" "truthy e"
    by (auto elim: stored_atD)
  from a have pl: "plus_one (field e ''version'') = Inr (PNum (Num (v + 1)))"
    using plus_one_safe [of v] by simp
  from a have ne: "strict_neq x (PNum (Num (v + 1)))"
    by (simp add: strict_neq_Num)
  from a have b: "b \<noteq> JNull" and n: "Number P (field b ''version'') = Inr x"
    by simp_all
  show "handlePut P files now storeName i (Json b) = Inr ((409, JsonBody e), files)"
    using rd b pl n ne by (rule handlePut_conflict)
next
  assume a: "stored_at files storeName i e \<and> field e ''version'' = Some (JNum v) \<and> \<bar>v\<bar> < 2 ^ 53 \<and>
       Number P (field c ''version'') = Inr (Num (v + 1))"
  then obtain r where r: "field e ''id'' = Some (JStr r)"
    and ok: "valid_store_name storeName" "safeId i \<noteq> []"
    by (auto elim: stored_atD)
  let ?E = "assoc_set ''updatedAt'' (JStr now)
              (assoc_set ''version'' (JNum (v + 1)) (assoc_set ''id'' (JStr r) (spread c)))"
  from a obtain kvs where c: "c = JObj kvs" by (auto elim: Number_Num_object)
  have h: "handlePut P files now storeName i (Json c) =
      Inr ((204, NoBody), assoc_set (storeName, safeId i) (Json (JObj ?E)) files)"
    using handlePut_accept [of files storeName i e r v P c now] a r by simp
  have rd: "readEntity (assoc_set (storeName, safeId i) (Json (JObj ?E)) files) storeName i =
      Inr (Some (JObj ?E))"
    using ok by (rule readEntity_after_write)
  have f: "map_of ?E ''id'' = Some (JStr r)" "map_of ?E ''version'' = Some (JNum (v + 1))"
    "map_of ?E ''updatedAt'' = Some (JStr now)"
    by (simp_all add: map_of_assoc_set)
  have p: "\<forall>k. payload_key k \<longrightarrow> map_of ?E k = field c k"
    using c by (simp add: map_of_assoc_set payload_key_def)
  have o: "\<forall>q. q \<noteq> (storeName, safeId i) \<longrightarrow>
      map_of (assoc_set (storeName, safeId i) (Json (JObj ?E)) files) q = map_of files q"
    by (simp add: map_of_assoc_set)
  show "\<exists>r E files'.
            field e ''id'' = Some (JStr r) \<and>
            handlePut P files now storeName i (Json c) = Inr ((204, NoBody), files') \<and>
            readEntity files' storeName i = Inr (Some (JObj E)) \<and>
            map_of E ''id'' = Some (JStr r) \<and>
            map_of E ''version'' = Some (JNum (v + 1)) \<and>
            map_of E ''updatedAt'' = Some (JStr now) \<and>
            (\<forall>k. payload_key k \<longrightarrow> map_of E k = field c k) \<and>
            (\<forall>q. q \<noteq> (storeName, safeId i) \<longrightarrow> map_of files' q = map_of files q)"
    using r h rd f p o by blast
qed

theorem update_version_check_witness:
  "readEntity store1 ''memos'' ''zz'' = Inr None
   \<and> (stored_at store1 ''memos'' ''a'' memo_a \<and> field memo_a ''version'' = Some (JNum 1) \<and>
      \<bar>1 :: int\<bar> < 2 ^ 53 \<and> JObj [(''version'', JNum 3)] \<noteq> JNull \<and>
      Number ref_platform (field (JObj [(''version'', JNum 3)]) ''version'') = Inr (Num 3) \<and>
      Num 3 \<noteq> Num (1 + 1))
   \<and> Number ref_platform (field (JObj [(''version'', JNum 2), (''text'', JStr ''y'')]) ''version'') =
       Inr (Num (1 + 1))
   \<and> handlePut ref_platform store1 t1 ''memos'' ''zz'' Malformed = Inr ((404, NoBody), store1)
   \<and> handlePut ref_platform store1 t1 ''memos'' ''a'' (Json (JObj [(''version'', JNum 3)])) =
        Inr ((409, JsonBody memo_a), store1)
   \<and> (\<exists>r E files'.
        field memo_a ''id'' = Some (JStr r) \<and>
        handlePut ref_platform store1 t1 ''memos'' ''a''
          (Json (JObj [(''version'', JNum 2), (''text'', JStr ''y'')])) = Inr ((204, NoBody), files') \<and>
        readEntity files' ''memos'' ''a'' = Inr (Some (JObj E)) \<and>
        map_of E ''id'' = Some (JStr r) \<and>
        map_of E ''version'' = Some (JNum (1 + 1)) \<and>
        map_of E ''updatedAt'' = Some (JStr t1) \<and>
        (\<forall>k. payload_key k \<longrightarrow>
           map_of E k = field (JObj [(''version'', JNum 2), (''text'', JStr ''y'')]) k) \<and>
        (\<forall>q. q \<noteq> (''memos'', safeId ''a'') \<longrightarrow> map_of files' q = map_of store1 q))"
proof -
  have v: "field memo_a ''version'' = Some (JNum 1)"
    by (simp add: memo_a_def)
  have s: "\<bar>1 :: int\<bar> < 2 ^ 53"
    by simp
  have n3: "JObj [(''version'', JNum 3)] \<noteq> JNull \<and>
      Number ref_platform (field (JObj [(''version'', JNum 3)]) ''version'') = Inr (Num 3) \<and>
      Num 3 \<noteq> Num (1 + 1)"
    by simp
  have n2: "Number ref_platform (field (JObj [(''version'', JNum 2), (''text'', JStr ''y'')]) ''version'') =
      Inr (Num (1 + 1))"
    by simp
  show ?thesis
    using update_version_check [of store1 "''memos''" "''zz''" ref_platform t1 Malformed "''a''" memo_a 1
        "JObj [(''version'', JNum 3)]" "Num 3" "JObj [(''version'', JNum 2), (''text'', JStr ''y'')]"]
      stored_memo_a absent_zz v s n3 n2
    by blast
qed
lemma plus_one_tombstone: "is_tombstone e \<Longrightarrow> plus_one (field e ''version'') = Inr (PNum (Num 0))"
  by (simp add: is_tombstone_def double_of_def double_abs_def)

lemma handlePut_status:
  assumes "handlePut P files now s i (Json b) = Inr ((st, bd), files')"
  shows "st = 404 \<or> st = 409 \<or> st = 204"
  using assms
  by (auto simp: handlePut_def Let_def split: sum.splits option.splits if_splits)

text \<open>
  Claim C5, as stated, fails: a tombstone has version -1, so the expected next version
  is 0, and an update that submits version 0 is accepted. In \<open>store1\<close> the record \<open>d\<close> is a
  tombstone; the update below answers 204 and leaves a live record with version 0.
\<close>

theorem tombstone_update_counterexample:
  "stored_at store1 ''memos'' ''d'' tomb_d \<and> is_tombstone tomb_d \<and>
   handlePut ref_platform store1 t1 ''memos'' ''d''
     (Json (JObj [(''version'', JNum 0), (''text'', JStr ''again'')])) =
   Inr ((204, NoBody),
        [((''memos'', ''a''), Json memo_a),
         ((''memos'', ''d''),
          Json (JObj [(''version'', JNum 0), (''text'', JStr ''again''), (''id'', JStr ''d''),
                      (''updatedAt'', JStr t1)]))])"
proof -
  have v: "field tomb_d ''version'' = Some (JNum (- 1))" "field tomb_d ''id'' = Some (JStr ''d'')"
    by (simp_all add: tomb_d_def)
  have "handlePut ref_platform store1 t1 ''memos'' ''d''
     (Json (JObj [(''version'', JNum 0), (''text'', JStr ''again'')])) =
     Inr ((204, NoBody),
          assoc_set (''memos'', safeId ''d'')
            (Json (JObj (assoc_set ''updatedAt'' (JStr t1)
                          (assoc_set ''version'' (JNum (- 1 + 1))
                             (assoc_set ''id'' (JStr ''d'')
                                (spread (JObj [(''version'', JNum 0), (''text'', JStr ''again'')]))))))) store1)"
    using handlePut_accept [of store1 "''memos''" "''d''" tomb_d "''d''" "- 1" ref_platform
        "JObj [(''version'', JNum 0), (''text'', JStr ''again'')]" t1] stored_tomb_d v
    by simp
  then show ?thesis
    using stored_tomb_d v by (simp add: is_tombstone_def store1_def)
qed

text \<open>
  Claim C5, amended. For a tombstone stored under \<open>i\<close>: an update whose body is a value
  other than \<^verbatim>\<open>null\<close> and whose \<^verbatim>\<open>version\<close> is converted by \<^verbatim>\<open>Number\<close> without an exception, to
  a submitted version that is not 0, answers 409 with the tombstone as its body and
  leaves the store unchanged; an update that submits 0 (the tombstone's version plus 1)
  is accepted and leaves a record with version 0, which is no tombstone; a delete
  answers 204 and leaves the tombstone with \<^verbatim>\<open>updatedAt\<close> = the time of the request.
\<close>

theorem tombstone_update:
  "(stored_at files storeName i e \<and> is_tombstone e \<and> b \<noteq> JNull \<and>
    Number P (field b ''version'') = Inr x \<and> x \<noteq> Num 0 \<longrightarrow>
      handlePut P files now storeName i (Json b) = Inr ((409, JsonBody e), files))
   \<and> (stored_at files storeName i e \<and> is_tombstone e \<and>
       Number P (field c ''version'') = Inr (Num 0) \<longrightarrow>
        (\<exists>E files'.
           handlePut P files now storeName i (Json c) = Inr ((204, NoBody), files') \<and>
           readEntity files' storeName i = Inr (Some (JObj E)) \<and>
           map_of E ''version'' = Some (JNum 0) \<and> \<not> is_tombstone (JObj E)))
   \<and> (stored_at files storeName i e \<and> is_tombstone e \<longrightarrow>
        (\<exists>r files'.
           field e ''id'' = Some (JStr r) \<and>
           handleDelete files now storeName i = Inr ((204, NoBody), files') \<and>
           readEntity files' storeName i =
             Inr (Some (JObj [(''id'', JStr r), (''version'', JNum (- 1)), (''updatedAt'', JStr now)]))))"
proof (intro conjI impI)
  assume a: "stored_at files storeName i e \<and> is_tombstone e \<and> b \<noteq> JNull \<and>
    Number P (field b ''version'') = Inr x \<and> x \<noteq> Num 0"
  then have rd: "readEntity files storeName i = Inr (Some e)" "truthy e"
    by (auto elim: stored_atD)
  from a have pl: "plus_one (field e ''version'') = Inr (PNum (Num 0))"
    by (simp add: plus_one_tombstone)
  from a have ne: "strict_neq x (PNum (Num 0))"
    by (simp add: strict_neq_Num)
  from a have b: "b \<noteq> JNull" and n: "Number P (field b ''version'') = Inr x"
    by simp_all
  show "handlePut P files now storeName i (Json b) = Inr ((409, JsonBody e), files)"
    using rd b pl n ne by (rule handlePut_conflict)
next
  assume a: "stored_at files storeName i e \<and> is_tombstone e \<and>
       Number P (field c ''version'') = Inr (Num 0)"
  then obtain r where r: "field e ''id'' = Some (JStr r)"
    and ok: "valid_store_name storeName" "safeId i \<noteq> []"
    by (auto elim: stored_atD)
  let ?E = "assoc_set ''updatedAt'' (JStr now)
              (assoc_set ''version'' (JNum (- 1 + 1)) (assoc_set ''id'' (JStr r) (spread c)))"
  have h: "handlePut P files now storeName i (Json c) =
      Inr ((204, NoBody), assoc_set (storeName, safeId i) (Json (JObj ?E)) files)"
    using handlePut_accept [of files storeName i e r "- 1" P c now] a r
    by (simp add: is_tombstone_def)
  have rd: "readEntity (assoc_set (storeName, safeId i) (Json (JObj ?E)) files) storeName i =
      Inr (Some (JObj ?E))"
    using ok by (rule readEntity_after_write)
  have f: "map_of ?E ''version'' = Some (JNum 0)"
    by (simp add: map_of_assoc_set)
  then have "\<not> is_tombstone (JObj ?E)"
    by (simp add: is_tombstone_def)
  with h rd f show "\<exists>E files'.
           handlePut P files now storeName i (Json c) = Inr ((204, NoBody), files') \<and>
           readEntity files' storeName i = Inr (Some (JObj E)) \<and>
           map_of E ''version'' = Some (JNum 0) \<and> \<not> is_tombstone (JObj E)"
    by blast
next
  assume a: "stored_at files storeName i e \<and> is_tombstone e"
  then obtain r where r: "field e ''id'' = Some (JStr r)"
    and ok: "valid_store_name storeName" "safeId i \<noteq> []"
    by (auto elim: stored_atD)
  let ?T = "JObj [(''id'', JStr r), (''version'', JNum (- 1)), (''updatedAt'', JStr now)]"
  have h: "handleDelete files now storeName i =
      Inr ((204, NoBody), assoc_set (storeName, safeId i) (Json ?T) files)"
    using handleDelete_stored [of files storeName i e r now] a r by simp
  have rd: "readEntity (assoc_set (storeName, safeId i) (Json ?T) files) storeName i = Inr (Some ?T)"
    using ok by (rule readEntity_after_write)
  from r h rd show "\<exists>r files'.
           field e ''id'' = Some (JStr r) \<and>
           handleDelete files now storeName i = Inr ((204, NoBody), files') \<and>
           readEntity files' storeName i =
             Inr (Some (JObj [(''id'', JStr r), (''version'', JNum (- 1)), (''updatedAt'', JStr now)]))"
    by blast
qed

theorem tombstone_update_witness:
  "(stored_at store1 ''memos'' ''d'' tomb_d \<and> is_tombstone tomb_d \<and>
    JObj [(''version'', JNum 5)] \<noteq> JNull \<and>
    Number ref_platform (field (JObj [(''version'', JNum 5)]) ''version'') = Inr (Num 5) \<and>
    Num 5 \<noteq> Num 0)
   \<and> Number ref_platform (field (JObj [(''version'', JNum 0)]) ''version'') = Inr (Num 0)
   \<and> handlePut ref_platform store1 t1 ''memos'' ''d'' (Json (JObj [(''version'', JNum 5)])) =
        Inr ((409, JsonBody tomb_d), store1)
   \<and> (\<exists>E files'.
         handlePut ref_platform store1 t1 ''memos'' ''d'' (Json (JObj [(''version'', JNum 0)])) =
           Inr ((204, NoBody), files') \<and>
         readEntity files' ''memos'' ''d'' = Inr (Some (JObj E)) \<and>
         map_of E ''version'' = Some (JNum 0) \<and> \<not> is_tombstone (JObj E))
   \<and> (\<exists>r files'.
         field tomb_d ''id'' = Some (JStr r) \<and>
         handleDelete store1 t1 ''memos'' ''d'' = Inr ((204, NoBody), files') \<and>
         readEntity files' ''memos'' ''d'' =
           Inr (Some (JObj [(''id'', JStr r), (''version'', JNum (- 1)), (''updatedAt'', JStr t1)])))"
proof -
  have t: "is_tombstone tomb_d"
    by (simp add: is_tombstone_def tomb_d_def)
  have n5: "JObj [(''version'', JNum 5)] \<noteq> JNull \<and>
      Number ref_platform (field (JObj [(''version'', JNum 5)]) ''version'') = Inr (Num 5) \<and>
      Num 5 \<noteq> Num 0"
    by simp
  have n0: "Number ref_platform (field (JObj [(''version'', JNum 0)]) ''version'') = Inr (Num 0)"
    by simp
  show ?thesis
    using tombstone_update [of store1 "''memos''" "''d''" tomb_d "JObj [(''version'', JNum 5)]"
        ref_platform "Num 5" t1 "JObj [(''version'', JNum 0)]"]
      stored_tomb_d t n5 n0
    by blast
qed

subsection \<open>The checks of an update, in order\<close>

lemma ref_stringToNumber_2: "ref_stringToNumber ''2'' = Num 2"
  by (simp add: ref_stringToNumber_def js_space_def is_digit_def double_of_def double_abs_def)

text \<open>
  Claim C9, as stated, fails: the body's \<^verbatim>\<open>version\<close> goes through \<^verbatim>\<open>Number\<close>, so a
  version that is no number but stands for the expected one is accepted. The record
  \<open>a\<close> of \<open>store1\<close> has version 1; the update with the string \<^verbatim>\<open>"2"\<close> as its version
  answers 204 and writes version 2.
\<close>

theorem update_string_version_counterexample:
  "stored_at store1 ''memos'' ''a'' memo_a \<and> field memo_a ''version'' = Some (JNum 1) \<and>
   handlePut ref_platform store1 t1 ''memos'' ''a'' (Json (JObj [(''version'', JStr ''2'')])) =
   Inr ((204, NoBody),
        [((''memos'', ''a''),
          Json (JObj [(''version'', JNum 2), (''id'', JStr ''a''), (''updatedAt'', JStr t1)])),
         ((''memos'', ''d''), Json tomb_d)])"
proof -
  have v: "field memo_a ''version'' = Some (JNum 1)" "field memo_a ''id'' = Some (JStr ''a'')"
    by (simp_all add: memo_a_def)
  have n: "Number ref_platform (field (JObj [(''version'', JStr ''2'')]) ''version'') = Inr (Num (1 + 1))"
    by (simp add: ref_platform_def ref_stringToNumber_2)
  have "handlePut ref_platform store1 t1 ''memos'' ''a'' (Json (JObj [(''version'', JStr ''2'')])) =
     Inr ((204, NoBody),
          assoc_set (''memos'', safeId ''a'')
            (Json (JObj (assoc_set ''updatedAt'' (JStr t1)
                          (assoc_set ''version'' (JNum (1 + 1))
                             (assoc_set ''id'' (JStr ''a'')
                                (spread (JObj [(''version'', JStr ''2'')]))))))) store1)"
    using handlePut_accept [of store1 "''memos''" "''a''" memo_a "''a''" 1 ref_platform
        "JObj [(''version'', JStr ''2'')]" t1] stored_memo_a v n
    by simp
  then show ?thesis
    using stored_memo_a v by (simp add: store1_def)
qed

text \<open>
  Claim C9, amended. For a truthy record read under \<open>i\<close> whose version \<open>v\<close> is below
  \<open>2 ^ 53\<close> in absolute value, and a body that parses to a value other than \<^verbatim>\<open>null\<close>: when
  \<^verbatim>\<open>Number(body.version)\<close> returns, without an exception, a number that is not \<open>v + 1\<close>, the
  answer is 409 with the stored record and nothing is written; so it is, for every
  version of the record that is a number, when the body has no \<^verbatim>\<open>version\<close>. An answer 400
  of an update means that the body did not parse; with a record under \<open>i\<close> a body that
  does not parse answers 400, and with nothing under \<open>i\<close> it answers 404.
\<close>

theorem update_checks_order:
  "(readEntity files storeName i = Inr (Some e) \<and> truthy e \<and> field e ''version'' = Some (JNum v) \<and>
    \<bar>v\<bar> < 2 ^ 53 \<and> b \<noteq> JNull \<and> Number P (field b ''version'') = Inr x \<and> x \<noteq> Num (v + 1) \<longrightarrow>
      handlePut P files now storeName i (Json b) = Inr ((409, JsonBody e), files))
   \<and> (readEntity files storeName i = Inr (Some e) \<and> truthy e \<and> field e ''version'' = Some (JNum w) \<and>
       c \<noteq> JNull \<and> field c ''version'' = None \<longrightarrow>
         handlePut P files now storeName i (Json c) = Inr ((409, JsonBody e), files))
   \<and> (handlePut P files now storeName k body = Inr ((400, bd), files') \<longrightarrow> body = Malformed)
   \<and> (readEntity files storeName i = Inr (Some e) \<and> truthy e \<longrightarrow>
        handlePut P files now storeName i Malformed = Inr ((400, TextBody ''Bad Request''), files))
   \<and> (readEntity files storeName j = Inr None \<longrightarrow>
        handlePut P files now storeName j Malformed = Inr ((404, NoBody), files))"
proof (intro conjI impI)
  assume a: "readEntity files storeName i = Inr (Some e) \<and> truthy e \<and>
    field e ''version'' = Some (JNum v) \<and> \<bar>v\<bar> < 2 ^ 53 \<and> b \<noteq> JNull \<and>
    Number P (field b ''version'') = Inr x \<and> x \<noteq> Num (v + 1)"
  then have rd: "readEntity files storeName i = Inr (Some e)" "truthy e"
    by simp_all
  from a have pl: "plus_one (field e ''version'') = Inr (PNum (Num (v + 1)))"
    using plus_one_safe [of v] by simp
  from a have ne: "strict_neq x (PNum (Num (v + 1)))"
    by (simp add: strict_neq_Num)
  from a have b: "b \<noteq> JNull" and n: "Number P (field b ''version'') = Inr x"
    by simp_all
  show "handlePut P files now storeName i (Json b) = Inr ((409, JsonBody e), files)"
    using rd b pl n ne by (rule handlePut_conflict)
next
  assume a: "readEntity files storeName i = Inr (Some e) \<and> truthy e \<and>
    field e ''version'' = Some (JNum w) \<and> c \<noteq> JNull \<and> field c ''version'' = None"
  then have rd: "readEntity files storeName i = Inr (Some e)" "truthy e"
    by simp_all
  from a have pl: "plus_one (field e ''version'') = Inr (PNum (Num (double_of (w + 1))))"
    by simp
  from a have c: "c \<noteq> JNull" and n: "Number P (field c ''version'') = Inr NaN"
    by simp_all
  have ne: "strict_neq NaN (PNum (Num (double_of (w + 1))))"
    by simp
  show "handlePut P files now storeName i (Json c) = Inr ((409, JsonBody e), files)"
    using rd c pl n ne by (rule handlePut_conflict)
next
  assume a: "handlePut P files now storeName k body = Inr ((400, bd), files')"
  show "body = Malformed"
  proof (cases body)
    case Malformed
    then show ?thesis .
  next
    case (Json x)
    with a handlePut_status [of P files now storeName k x 400 bd files'] show ?thesis
      by simp
  qed
next
  assume "readEntity files storeName i = Inr (Some e) \<and> truthy e"
  then show "handlePut P files now storeName i Malformed = Inr ((400, TextBody ''Bad Request''), files)"
    by (simp add: handlePut_def)
next
  assume "readEntity files storeName j = Inr None"
  then show "handlePut P files now storeName j Malformed = Inr ((404, NoBody), files)"
    by (rule handlePut_absent)
qed

theorem update_checks_order_witness:
  "(readEntity store1 ''memos'' ''a'' = Inr (Some memo_a) \<and> truthy memo_a \<and>
    field memo_a ''version'' = Some (JNum 1) \<and> \<bar>1 :: int\<bar> < 2 ^ 53 \<and>
    JObj [(''version'', JStr ''abc'')] \<noteq> JNull \<and>
    Number ref_platform (field (JObj [(''version'', JStr ''abc'')]) ''version'') = Inr NaN \<and>
    NaN \<noteq> Num (1 + 1))
   \<and> (JObj [(''text'', JStr ''y'')] \<noteq> JNull \<and> field (JObj [(''text'', JStr ''y'')]) ''version'' = None)
   \<and> handlePut ref_platform store1 t1 ''memos'' ''a'' Malformed =
        Inr ((400, TextBody ''Bad Request''), store1)
   \<and> readEntity store1 ''memos'' ''zz'' = Inr None
   \<and> handlePut ref_platform store1 t1 ''memos'' ''a'' (Json (JObj [(''version'', JStr ''abc'')])) =
        Inr ((409, JsonBody memo_a), store1)
   \<and> handlePut ref_platform store1 t1 ''memos'' ''a'' (Json (JObj [(''text'', JStr ''y'')])) =
        Inr ((409, JsonBody memo_a), store1)
   \<and> Malformed = Malformed
   \<and> handlePut ref_platform store1 t1 ''memos'' ''zz'' Malformed = Inr ((404, NoBody), store1)"
proof -
  have rd: "readEntity store1 ''memos'' ''a'' = Inr (Some memo_a) \<and> truthy memo_a \<and>
    field memo_a ''version'' = Some (JNum 1)"
    using stored_memo_a by (simp add: stored_at_def memo_a_def)
  have n: "\<bar>1 :: int\<bar> < 2 ^ 53 \<and> JObj [(''version'', JStr ''abc'')] \<noteq> JNull \<and>
    Number ref_platform (field (JObj [(''version'', JStr ''abc'')]) ''version'') = Inr NaN \<and>
    NaN \<noteq> Num (1 + 1)"
    by (simp add: ref_platform_def ref_stringToNumber_def js_space_def is_digit_def)
  have c: "JObj [(''text'', JStr ''y'')] \<noteq> JNull \<and> field (JObj [(''text'', JStr ''y'')]) ''version'' = None"
    by simp
  have m: "handlePut ref_platform store1 t1 ''memos'' ''a'' Malformed =
        Inr ((400, TextBody ''Bad Request''), store1)"
    using rd by (simp add: handlePut_def)
  show ?thesis
    using update_checks_order [of store1 "''memos''" "''a''" memo_a 1 "JObj [(''version'', JStr ''abc'')]"
        ref_platform NaN t1 1 "JObj [(''text'', JStr ''y'')]" "''a''" Malformed "TextBody ''Bad Request''"
        store1 "''zz''"]
      rd n c m absent_zz
    by blast
qed

subsection \<open>Create\<close>

lemma handlePost_absent:
  assumes "map_of kvs ''id'' = Some iv" and "iv \<noteq> JNull" and "js_String iv = Inr r"
    and "readEntity files s r = Inr ex" and "\<not> truthy_opt ex"
  shows "handlePost files now s (Json (JObj kvs)) =
     Inr ((204, NoBody),
          assoc_set (s, safeId r)
            (Json (JObj (assoc_set ''updatedAt'' (JStr now)
                          (assoc_set ''version'' (JNum 1)
                             (assoc_set ''id'' (JStr r) kvs))))) files)"
proof -
  let ?E = "assoc_set ''updatedAt'' (JStr now)
              (assoc_set ''version'' (JNum 1) (assoc_set ''id'' (JStr r) kvs))"
  from assms(4) have ok: "valid_store_name s \<and> safeId r \<noteq> []"
    by (rule readEntity_Inr_valid)
  have "map_of ?E ''id'' = Some (JStr r)"
    by (simp add: map_of_assoc_set)
  then have "writeEntity files s ?E = Inr (assoc_set (s, safeId r) (Json (JObj ?E)) files)"
    using writeEntity_Inr [of s ?E r files] ok by simp
  with assms show ?thesis
    by (simp add: handlePost_def)
qed

lemma handlePost_present:
  assumes "map_of kvs ''id'' = Some iv" and "iv \<noteq> JNull" and "js_String iv = Inr r"
    and "readEntity files s r = Inr (Some e)" and "truthy e"
  shows "handlePost files now s (Json (JObj kvs)) = Inr ((409, TextBody ''Conflict''), files)"
  using assms by (simp add: handlePost_def)

lemma handlePost_204D:
  assumes "handlePost files now s (Json (JObj kvs)) = Inr ((204, bd), files')"
  obtains iv r ex where "map_of kvs ''id'' = Some iv" "iv \<noteq> JNull" "js_String iv = Inr r"
    "readEntity files s r = Inr ex" "\<not> truthy_opt ex"
  using assms
  by (auto simp: handlePost_def Let_def split: sum.splits option.splits if_splits)

text \<open>
  Claim C3, as stated, fails for an id that names no file. In the empty store no id is
  present; a create with the id \<^verbatim>\<open>/\<close>, which is empty once the slashes are removed, is
  not persisted: \<^verbatim>\<open>entityPath\<close> throws and the server answers 500. So does a create whose
  id is the object \<^verbatim>\<open>{"toString": 1}\<close>, where \<^verbatim>\<open>String(id)\<close> throws a \<^verbatim>\<open>TypeError\<close>.
\<close>

theorem create_unusable_id_counterexample:
  "handlePost [] t1 ''memos'' (Json (JObj [(''id'', JStr ''/''), (''text'', JStr ''hi'')])) = Inl InvalidId \<and>
   handleFetch ref_platform [] t1
     \<lparr>reqMethod = ''POST'', segments = [''memos''], query = [],
      reqBody = Json (JObj [(''id'', JStr ''/''), (''text'', JStr ''hi'')])\<rparr> =
     ((500, TextBody ''Internal Server Error''), []) \<and>
   handlePost [] t1 ''memos'' (Json (JObj [(''id'', JObj [(''toString'', JNum 1)])])) = Inl TypeError \<and>
   handleFetch ref_platform [] t1
     \<lparr>reqMethod = ''POST'', segments = [''memos''], query = [],
      reqBody = Json (JObj [(''id'', JObj [(''toString'', JNum 1)])])\<rparr> =
     ((500, TextBody ''Internal Server Error''), [])"
  by code_simp

text \<open>
  Claim C3, amended. Let the id of the body be a value other than \<^verbatim>\<open>null\<close> that
  \<^verbatim>\<open>String\<close> converts, without an exception, to a string \<open>r\<close> that is not empty once \<^verbatim>\<open>/\<close>
  and \<^verbatim>\<open>\\<close> are removed, in a store with a valid name. A create whose id is not present
  (reading \<open>r\<close> finds no truthy record) answers 204 and stores, under that id, the body
  with \<^verbatim>\<open>id\<close> = \<open>r\<close>, \<^verbatim>\<open>version\<close> = 1 and \<^verbatim>\<open>updatedAt\<close> = the time of the request, whatever
  \<^verbatim>\<open>version\<close> and \<^verbatim>\<open>updatedAt\<close> the body carried; its payload fields are the body's and no
  other file changes. A create whose id is present, a tombstone included, answers 409
  and leaves the store as it was.
\<close>

theorem create_once:
  "(map_of kvs ''id'' = Some iv \<and> iv \<noteq> JNull \<and> js_String iv = Inr r \<and>
    valid_store_name storeName \<and> safeId r \<noteq> [] \<and>
    readEntity files storeName r = Inr ex \<and> \<not> truthy_opt ex \<longrightarrow>
      (\<exists>E files'.
         handlePost files now storeName (Json (JObj kvs)) = Inr ((204, NoBody), files') \<and>
         readEntity files' storeName r = Inr (Some (JObj E)) \<and>
         map_of E ''id'' = Some (JStr r) \<and>
         map_of E ''version'' = Some (JNum 1) \<and>
         map_of E ''updatedAt'' = Some (JStr now) \<and>
         (\<forall>k. payload_key k \<longrightarrow> map_of E k = map_of kvs k) \<and>
         (\<forall>q. q \<noteq> (storeName, safeId r) \<longrightarrow> map_of files' q = map_of files q)))
   \<and> (map_of kvs2 ''id'' = Some iv2 \<and> iv2 \<noteq> JNull \<and> js_String iv2 = Inr r2 \<and>
       valid_store_name storeName \<and> safeId r2 \<noteq> [] \<and>
       readEntity files storeName r2 = Inr (Some e2) \<and> truthy e2 \<longrightarrow>
         handlePost files now storeName (Json (JObj kvs2)) = Inr ((409, TextBody ''Conflict''), files))
   \<and> (map_of kvs3 ''id'' = Some iv3 \<and> iv3 \<noteq> JNull \<and> js_String iv3 = Inr r3 \<and>
       valid_store_name storeName \<and> safeId r3 \<noteq> [] \<and>
       readEntity files storeName r3 = Inr (Some e3) \<and> is_tombstone e3 \<longrightarrow>
         handlePost files now storeName (Json (JObj kvs3)) = Inr ((409, TextBody ''Conflict''), files))"
proof (intro conjI impI)
  assume a: "map_of kvs ''id'' = Some iv \<and> iv \<noteq> JNull \<and> js_String iv = Inr r \<and>
    valid_store_name storeName \<and> safeId r \<noteq> [] \<and>
    readEntity files storeName r = Inr ex \<and> \<not> truthy_opt ex"
  let ?E = "assoc_set ''updatedAt'' (JStr now)
              (assoc_set ''version'' (JNum 1) (assoc_set ''id'' (JStr r) kvs))"
  let ?p = "(storeName, safeId r)"
  from a have ok: "valid_store_name storeName" "safeId r \<noteq> []"
    by simp_all
  have h: "handlePost files now storeName (Json (JObj kvs)) =
      Inr ((204, NoBody), assoc_set ?p (Json (JObj ?E)) files)"
    using handlePost_absent [of kvs iv r files storeName ex now] a by simp
  have rd: "readEntity (assoc_set ?p (Json (JObj ?E)) files) storeName r = Inr (Some (JObj ?E))"
    using ok by (rule readEntity_after_write)
  have f: "map_of ?E ''id'' = Some (JStr r)" "map_of ?E ''version'' = Some (JNum 1)"
    "map_of ?E ''updatedAt'' = Some (JStr now)"
    by (simp_all add: map_of_assoc_set)
  have p: "\<forall>k. payload_key k \<longrightarrow> map_of ?E k = map_of kvs k"
    by (simp add: map_of_assoc_set payload_key_def)
  have o: "\<forall>q. q \<noteq> ?p \<longrightarrow> map_of (assoc_set ?p (Json (JObj ?E)) files) q = map_of files q"
    by (simp add: map_of_assoc_set)
  show "\<exists>E files'.
         handlePost files now storeName (Json (JObj kvs)) = Inr ((204, NoBody), files') \<and>
         readEntity files' storeName r = Inr (Some (JObj E)) \<and>
         map_of E ''id'' = Some (JStr r) \<and>
         map_of E ''version'' = Some (JNum 1) \<and>
         map_of E ''updatedAt'' = Some (JStr now) \<and>
         (\<forall>k. payload_key k \<longrightarrow> map_of E k = map_of kvs k) \<and>
         (\<forall>q. q \<noteq> (storeName, safeId r) \<longrightarrow> map_of files' q = map_of files q)"
    using h rd f p o by blast
next
  assume "map_of kvs2 ''id'' = Some iv2 \<and> iv2 \<noteq> JNull \<and> js_String iv2 = Inr r2 \<and>
       valid_store_name storeName \<and> safeId r2 \<noteq> [] \<and>
       readEntity files storeName r2 = Inr (Some e2) \<and> truthy e2"
  then show "handlePost files now storeName (Json (JObj kvs2)) = Inr ((409, TextBody ''Conflict''), files)"
    using handlePost_present [of kvs2 iv2 r2 files storeName e2 now] by simp
next
  assume "map_of kvs3 ''id'' = Some iv3 \<and> iv3 \<noteq> JNull \<and> js_String iv3 = Inr r3 \<and>
       valid_store_name storeName \<and> safeId r3 \<noteq> [] \<and>
       readEntity files storeName r3 = Inr (Some e3) \<and> is_tombstone e3"
  then show "handlePost files now storeName (Json (JObj kvs3)) = Inr ((409, TextBody ''Conflict''), files)"
    using handlePost_present [of kvs3 iv3 r3 files storeName e3 now] is_tombstone_truthy [of e3] by simp
qed

lemma absent_b: "readEntity store1 ''memos'' ''b'' = Inr None"
  using valid_memos
  by (simp add: readEntity_def entityPath_def assertValidStoreName_def valid_store_name_def
      store1_def safeId_def)

theorem create_once_witness:
  "(map_of memo_new ''id'' = Some (JStr ''b'') \<and> JStr ''b'' \<noteq> JNull \<and> js_String (JStr ''b'') = Inr ''b'' \<and>
    valid_store_name ''memos'' \<and> safeId ''b'' \<noteq> [] \<and>
    readEntity store1 ''memos'' ''b'' = Inr None \<and> \<not> truthy_opt None)
   \<and> (map_of [(''id'', JStr ''a'')] ''id'' = Some (JStr ''a'') \<and> JStr ''a'' \<noteq> JNull \<and>
       js_String (JStr ''a'') = Inr ''a'' \<and> valid_store_name ''memos'' \<and> safeId ''a'' \<noteq> [] \<and>
       readEntity store1 ''memos'' ''a'' = Inr (Some memo_a) \<and> truthy memo_a)
   \<and> (map_of [(''id'', JStr ''d'')] ''id'' = Some (JStr ''d'') \<and> JStr ''d'' \<noteq> JNull \<and>
       js_String (JStr ''d'') = Inr ''d'' \<and> valid_store_name ''memos'' \<and> safeId ''d'' \<noteq> [] \<and>
       readEntity store1 ''memos'' ''d'' = Inr (Some tomb_d) \<and> is_tombstone tomb_d)
   \<and> (\<exists>E files'.
         handlePost store1 t1 ''memos'' (Json (JObj memo_new)) = Inr ((204, NoBody), files') \<and>
         readEntity files' ''memos'' ''b'' = Inr (Some (JObj E)) \<and>
         map_of E ''id'' = Some (JStr ''b'') \<and>
         map_of E ''version'' = Some (JNum 1) \<and>
         map_of E ''updatedAt'' = Some (JStr t1) \<and>
         (\<forall>k. payload_key k \<longrightarrow> map_of E k = map_of memo_new k) \<and>
         (\<forall>q. q \<noteq> (''memos'', safeId ''b'') \<longrightarrow> map_of files' q = map_of store1 q))
   \<and> handlePost store1 t1 ''memos'' (Json (JObj [(''id'', JStr ''a'')])) =
        Inr ((409, TextBody ''Conflict''), store1)
   \<and> handlePost store1 t1 ''memos'' (Json (JObj [(''id'', JStr ''d'')])) =
        Inr ((409, TextBody ''Conflict''), store1)"
proof -
  have h1: "map_of memo_new ''id'' = Some (JStr ''b'') \<and> JStr ''b'' \<noteq> JNull \<and>
    js_String (JStr ''b'') = Inr ''b'' \<and> valid_store_name ''memos'' \<and> safeId ''b'' \<noteq> [] \<and>
    readEntity store1 ''memos'' ''b'' = Inr None \<and> \<not> truthy_opt None"
    using absent_b valid_memos by (simp add: memo_new_def safeId_def)
  have h2: "map_of [(''id'', JStr ''a'')] ''id'' = Some (JStr ''a'') \<and> JStr ''a'' \<noteq> JNull \<and>
       js_String (JStr ''a'') = Inr ''a'' \<and> valid_store_name ''memos'' \<and> safeId ''a'' \<noteq> [] \<and>
       readEntity store1 ''memos'' ''a'' = Inr (Some memo_a) \<and> truthy memo_a"
    using stored_memo_a valid_memos by (simp add: stored_at_def)
  have h3: "map_of [(''id'', JStr ''d'')] ''id'' = Some (JStr ''d'') \<and> JStr ''d'' \<noteq> JNull \<and>
       js_String (JStr ''d'') = Inr ''d'' \<and> valid_store_name ''memos'' \<and> safeId ''d'' \<noteq> [] \<and>
       readEntity store1 ''memos'' ''d'' = Inr (Some tomb_d) \<and> is_tombstone tomb_d"
    using stored_tomb_d valid_memos by (simp add: stored_at_def is_tombstone_def tomb_d_def)
  show ?thesis
    using create_once [of memo_new "JStr ''b''" "''b''" "''memos''" store1 None t1
        "[(''id'', JStr ''a'')]" "JStr ''a''" "''a''" memo_a
        "[(''id'', JStr ''d'')]" "JStr ''d''" "''d''" tomb_d]
      h1 h2 h3
    by blast
qed
subsection \<open>Ids that differ in slashes only\<close>

lemma map_fst_assoc_set: "map fst (assoc_set k v xs) = map fst (assoc_set k w xs)"
  by (induction xs) auto

lemma handlePut_cong: "safeId i = safeId j \<Longrightarrow> handlePut P files now s i body = handlePut P files now s j body"
  using readEntity_cong [of i j files s] by (simp add: handlePut_def)

lemma handleDelete_cong: "safeId i = safeId j \<Longrightarrow> handleDelete files now s i = handleDelete files now s j"
  using readEntity_cong [of i j files s] by (simp add: handleDelete_def)

lemma route_get_cong:
  "safeId i = safeId j \<Longrightarrow> reqMethod req = ''GET'' \<Longrightarrow>
   route P files now req s (Some i) = route P files now req s (Some j)"
  using readEntity_cong [of i j files s] by (simp add: route_def)

lemma handlePost_alias:
  assumes "safeId i = safeId j" and "i \<noteq> []"
  shows "handlePost files now s (Json (JObj [(''id'', JStr i)])) =
         Inr (r, files1) \<longrightarrow>
         (\<exists>files2. handlePost files now s (Json (JObj [(''id'', JStr j)])) = Inr (r, files2) \<and>
            map fst files2 = map fst files1)"
proof
  assume h: "handlePost files now s (Json (JObj [(''id'', JStr i)])) = Inr (r, files1)"
  have rd: "readEntity files s j = readEntity files s i"
    using assms(1) readEntity_cong [of i j files s] by simp
  show "\<exists>files2. handlePost files now s (Json (JObj [(''id'', JStr j)])) = Inr (r, files2) \<and>
            map fst files2 = map fst files1"
  proof (cases "readEntity files s i")
    case (Inl x)
    with h show ?thesis by (simp add: handlePost_def)
  next
    case (Inr ex)
    then have ok: "valid_store_name s \<and> safeId i \<noteq> []"
      by (rule readEntity_Inr_valid)
    show ?thesis
    proof (cases "truthy_opt ex")
      case True
      with h Inr rd show ?thesis by (simp add: handlePost_def)
    next
      case False
      have h1: "handlePost files now s (Json (JObj [(''id'', JStr i)])) =
          Inr ((204, NoBody), assoc_set (s, safeId i)
            (Json (JObj (assoc_set ''updatedAt'' (JStr now) (assoc_set ''version'' (JNum 1)
               (assoc_set ''id'' (JStr i) [(''id'', JStr i)]))))) files)"
        using handlePost_absent [of "[(''id'', JStr i)]" "JStr i" i files s ex now] Inr False by simp
      have h2: "handlePost files now s (Json (JObj [(''id'', JStr j)])) =
          Inr ((204, NoBody), assoc_set (s, safeId j)
            (Json (JObj (assoc_set ''updatedAt'' (JStr now) (assoc_set ''version'' (JNum 1)
               (assoc_set ''id'' (JStr j) [(''id'', JStr j)]))))) files)"
        using handlePost_absent [of "[(''id'', JStr j)]" "JStr j" j files s ex now] Inr False rd by simp
      from h h1 h2 assms(1) show ?thesis
        using map_fst_assoc_set [of "(s, safeId j)" _ files] by auto
    qed
  qed
qed

text \<open>
  Claim C10. Two ids that are equal once \<^verbatim>\<open>/\<close> and \<^verbatim>\<open>\\<close> are removed address the same
  file: reading, updating and deleting give the same result for both, and a create
  with one answers as a create with the other and leaves the same files in the store.
  A record created with an id \<open>i\<close> is read back under the stripped id, and the \<^verbatim>\<open>id\<close>
  field it carries is still \<open>i\<close>.
\<close>

theorem slash_stripped_addressing:
  "(safeId i = safeId j \<longrightarrow>
      entityPath storeName i = entityPath storeName j \<and>
      readEntity files storeName i = readEntity files storeName j \<and>
      handlePut P files now storeName i body = handlePut P files now storeName j body \<and>
      handleDelete files now storeName i = handleDelete files now storeName j)
   \<and> (safeId i = safeId j \<and> i \<noteq> [] \<and>
       handlePost files now storeName (Json (JObj [(''id'', JStr i)])) = Inr (r, files1) \<longrightarrow>
         (\<exists>files2. handlePost files now storeName (Json (JObj [(''id'', JStr j)])) = Inr (r, files2) \<and>
            map fst files2 = map fst files1))
   \<and> (map_of kvs ''id'' = Some (JStr c) \<and>
       handlePost files now storeName (Json (JObj kvs)) = Inr ((204, NoBody), files') \<longrightarrow>
         (\<exists>E. readEntity files' storeName (safeId c) = Inr (Some (JObj E)) \<and>
              map_of E ''id'' = Some (JStr c)))"
proof (intro conjI impI)
  assume "safeId i = safeId j"
  then show "entityPath storeName i = entityPath storeName j"
    by (rule entityPath_cong)
next
  assume "safeId i = safeId j"
  then show "readEntity files storeName i = readEntity files storeName j"
    by (rule readEntity_cong)
next
  assume "safeId i = safeId j"
  then show "handlePut P files now storeName i body = handlePut P files now storeName j body"
    by (rule handlePut_cong)
next
  assume "safeId i = safeId j"
  then show "handleDelete files now storeName i = handleDelete files now storeName j"
    by (rule handleDelete_cong)
next
  assume "safeId i = safeId j \<and> i \<noteq> [] \<and>
       handlePost files now storeName (Json (JObj [(''id'', JStr i)])) = Inr (r, files1)"
  then show "\<exists>files2. handlePost files now storeName (Json (JObj [(''id'', JStr j)])) = Inr (r, files2) \<and>
            map fst files2 = map fst files1"
    using handlePost_alias [of i j files now storeName r files1] by simp
next
  assume a: "map_of kvs ''id'' = Some (JStr c) \<and>
       handlePost files now storeName (Json (JObj kvs)) = Inr ((204, NoBody), files')"
  then obtain iv r ex where iv: "map_of kvs ''id'' = Some iv" "iv \<noteq> JNull" "js_String iv = Inr r"
    "readEntity files storeName r = Inr ex" "\<not> truthy_opt ex"
    by (auto elim: handlePost_204D)
  with a have c: "iv = JStr c" "r = c" by auto
  let ?E = "assoc_set ''updatedAt'' (JStr now)
              (assoc_set ''version'' (JNum 1) (assoc_set ''id'' (JStr c) kvs))"
  from iv c have ok: "valid_store_name storeName \<and> safeId c \<noteq> []"
    by (auto dest: readEntity_Inr_valid)
  have "handlePost files now storeName (Json (JObj kvs)) =
      Inr ((204, NoBody), assoc_set (storeName, safeId c) (Json (JObj ?E)) files)"
    using handlePost_absent [of kvs iv r files storeName ex now] iv c by simp
  with a have f: "files' = assoc_set (storeName, safeId c) (Json (JObj ?E)) files"
    by simp
  have "readEntity files' storeName (safeId c) = Inr (Some (JObj ?E))"
    using ok f readEntity_after_write [of storeName "safeId c" "JObj ?E" files]
    by (simp add: safeId_idem)
  moreover have "map_of ?E ''id'' = Some (JStr c)"
    by (simp add: map_of_assoc_set)
  ultimately show "\<exists>E. readEntity files' storeName (safeId c) = Inr (Some (JObj E)) \<and>
              map_of E ''id'' = Some (JStr c)"
    by blast
qed

lemma safeId_xy: "safeId ''x/y'' = ''xy''"
  by (simp add: safeId_def)

lemma handlePost_memo_path:
  "handlePost store1 t1 ''memos'' (Json (JObj memo_path)) =
     Inr ((204, NoBody),
          store1 @ [((''memos'', ''xy''),
                     Json (JObj [(''id'', JStr ''x/y''), (''text'', JStr ''hi''), (''version'', JNum 1),
                                 (''updatedAt'', JStr t1)]))])"
proof -
  have rd: "readEntity store1 ''memos'' ''x/y'' = Inr None"
    using valid_memos
    by (simp add: readEntity_def entityPath_def assertValidStoreName_def valid_store_name_def
        store1_def safeId_xy)
  have "handlePost store1 t1 ''memos'' (Json (JObj memo_path)) =
     Inr ((204, NoBody),
          assoc_set (''memos'', safeId ''x/y'')
            (Json (JObj (assoc_set ''updatedAt'' (JStr t1)
                          (assoc_set ''version'' (JNum 1)
                             (assoc_set ''id'' (JStr ''x/y'') memo_path))))) store1)"
    using handlePost_absent [of memo_path "JStr ''x/y''" "''x/y''" store1 "''memos''" None t1] rd
    by (simp add: memo_path_def)
  then show ?thesis
    by (simp add: safeId_xy memo_path_def store1_def)
qed

theorem slash_stripped_addressing_witness:
  "safeId ''x/y'' = safeId ''xy''
   \<and> (safeId ''x/y'' = safeId ''xy'' \<and> ''x/y'' \<noteq> [] \<and>
      handlePost store1 t1 ''memos'' (Json (JObj [(''id'', JStr ''x/y'')])) =
        Inr ((204, NoBody),
             store1 @ [((''memos'', ''xy''),
                        Json (JObj [(''id'', JStr ''x/y''), (''version'', JNum 1), (''updatedAt'', JStr t1)]))]))
   \<and> (map_of memo_path ''id'' = Some (JStr ''x/y'') \<and>
      handlePost store1 t1 ''memos'' (Json (JObj memo_path)) =
        Inr ((204, NoBody),
             store1 @ [((''memos'', ''xy''),
                        Json (JObj [(''id'', JStr ''x/y''), (''text'', JStr ''hi''), (''version'', JNum 1),
                                    (''updatedAt'', JStr t1)]))]))
   \<and> (entityPath ''memos'' ''x/y'' = entityPath ''memos'' ''xy'' \<and>
      readEntity store1 ''memos'' ''x/y'' = readEntity store1 ''memos'' ''xy'' \<and>
      handlePut ref_platform store1 t1 ''memos'' ''x/y'' Malformed =
        handlePut ref_platform store1 t1 ''memos'' ''xy'' Malformed \<and>
      handleDelete store1 t1 ''memos'' ''x/y'' = handleDelete store1 t1 ''memos'' ''xy'')
   \<and> (\<exists>files2. handlePost store1 t1 ''memos'' (Json (JObj [(''id'', JStr ''xy'')])) =
         Inr ((204, NoBody), files2) \<and>
         map fst files2 =
           map fst (store1 @ [((''memos'', ''xy''),
                        Json (JObj [(''id'', JStr ''x/y''), (''version'', JNum 1), (''updatedAt'', JStr t1)]))]))
   \<and> (\<exists>E. readEntity
              (store1 @ [((''memos'', ''xy''),
                        Json (JObj [(''id'', JStr ''x/y''), (''text'', JStr ''hi''), (''version'', JNum 1),
                                    (''updatedAt'', JStr t1)]))])
              ''memos'' (safeId ''x/y'') = Inr (Some (JObj E)) \<and>
            map_of E ''id'' = Some (JStr ''x/y''))"
proof -
  have s: "safeId ''x/y'' = safeId ''xy''"
    by (simp add: safeId_def)
  have rd: "readEntity store1 ''memos'' ''x/y'' = Inr None"
    using valid_memos
    by (simp add: readEntity_def entityPath_def assertValidStoreName_def valid_store_name_def
        store1_def safeId_xy)
  have "handlePost store1 t1 ''memos'' (Json (JObj [(''id'', JStr ''x/y'')])) =
     Inr ((204, NoBody),
          assoc_set (''memos'', safeId ''x/y'')
            (Json (JObj (assoc_set ''updatedAt'' (JStr t1)
                          (assoc_set ''version'' (JNum 1)
                             (assoc_set ''id'' (JStr ''x/y'') [(''id'', JStr ''x/y'')]))))) store1)"
    using handlePost_absent [of "[(''id'', JStr ''x/y'')]" "JStr ''x/y''" "''x/y''" store1 "''memos''" None t1] rd
    by simp
  then have p1: "handlePost store1 t1 ''memos'' (Json (JObj [(''id'', JStr ''x/y'')])) =
        Inr ((204, NoBody),
             store1 @ [((''memos'', ''xy''),
                        Json (JObj [(''id'', JStr ''x/y''), (''version'', JNum 1), (''updatedAt'', JStr t1)]))])"
    by (simp add: safeId_xy store1_def)
  have m: "map_of memo_path ''id'' = Some (JStr ''x/y'')"
    by (simp add: memo_path_def)
  have ne: "''x/y'' \<noteq> []" by simp
  show ?thesis
    using slash_stripped_addressing [of "''x/y''" "''xy''" "''memos''" store1 ref_platform t1 Malformed
        "(204, NoBody)"
        "store1 @ [((''memos'', ''xy''),
                        Json (JObj [(''id'', JStr ''x/y''), (''version'', JNum 1), (''updatedAt'', JStr t1)]))]"
        memo_path "''x/y''"
        "store1 @ [((''memos'', ''xy''),
                        Json (JObj [(''id'', JStr ''x/y''), (''text'', JStr ''hi''), (''version'', JNum 1),
                                    (''updatedAt'', JStr t1)]))]"]
      s p1 m handlePost_memo_path ne
    by blast
qed

subsection \<open>Files that do not parse\<close>

lemma map_of_remove_file:
  "map_of (remove_file p files) q = (if q = p then None else map_of files q)"
  by (induction files) (auto simp: remove_file_def)

lemma garbage_atD:
  assumes "garbage_at files s i"
  shows "valid_store_name s" "safeId i \<noteq> []" "map_of files (s, safeId i) = Some Malformed"
    "readEntity files s i = Inr None"
proof -
  from assms obtain p where p: "entityPath s i = Inr p" "map_of files p = Some Malformed"
    by (auto simp: garbage_at_def split: sum.splits)
  then show "valid_store_name s" "safeId i \<noteq> []" "map_of files (s, safeId i) = Some Malformed"
    by (simp_all add: entityPath_Inr)
  from p show "readEntity files s i = Inr None"
    by (simp add: readEntity_def)
qed

lemma readEntity_remove_garbage:
  assumes "map_of files p = Some Malformed"
  shows "readEntity (remove_file p files) s n = readEntity files s n"
proof (cases "entityPath s n")
  case (Inl x)
  then show ?thesis by (simp add: readEntity_def)
next
  case (Inr q)
  with assms show ?thesis
    by (cases "q = p") (simp_all add: readEntity_def map_of_remove_file)
qed

lemma readAll_cong:
  "(\<And>n. readEntity f1 s n = readEntity f2 s n) \<Longrightarrow> readAll f1 s ns = readAll f2 s ns"
  by (induction ns) (simp_all split: sum.splits)

lemma readAll_filter_None:
  assumes "readEntity files s n0 = Inr None"
  shows "readAll files s (filter (\<lambda>n. n \<noteq> n0) ns) = readAll files s ns"
proof (induction ns)
  case Nil
  show ?case by simp
next
  case (Cons n ns)
  show ?case
  proof (cases "n = n0")
    case True
    with assms Cons show ?thesis
      by (simp split: sum.splits)
  next
    case False
    with Cons show ?thesis by (simp split: sum.splits)
  qed
qed

lemma names_remove_file:
  "map (\<lambda>f. snd (fst f)) (filter (\<lambda>f. fst (fst f) = s) (remove_file (s, n0) files)) =
   filter (\<lambda>n. n \<noteq> n0) (map (\<lambda>f. snd (fst f)) (filter (\<lambda>f. fst (fst f) = s) files))"
  by (induction files) (auto simp: remove_file_def)

lemma getAllEntities_remove_garbage:
  assumes "garbage_at files s i"
  shows "getAllEntities (remove_file (s, safeId i) files) s = getAllEntities files s"
proof -
  let ?p = "(s, safeId i)"
  let ?names = "map (\<lambda>f. snd (fst f)) (filter (\<lambda>f. fst (fst f) = s) files)"
  from assms have g: "valid_store_name s" "map_of files ?p = Some Malformed"
    and rd: "readEntity files s i = Inr None"
    by (simp_all add: garbage_atD)
  have rd0: "readEntity files s (safeId i) = Inr None"
    using rd readEntity_cong [of "safeId i" i files s] by (simp add: safeId_idem)
  have v: "assertValidStoreName s = Inr ()"
    using g(1) by (simp add: assertValidStoreName_def valid_store_name_def)
  have "getAllEntities (remove_file ?p files) s =
      readAll (remove_file ?p files) s (filter (\<lambda>n. n \<noteq> safeId i) ?names)"
    using v by (simp add: getAllEntities_def listEntityIds_def names_remove_file)
  also have "\<dots> = readAll files s (filter (\<lambda>n. n \<noteq> safeId i) ?names)"
    using g(2) by (intro readAll_cong readEntity_remove_garbage)
  also have "\<dots> = readAll files s ?names"
    using rd0 by (rule readAll_filter_None)
  also have "\<dots> = getAllEntities files s"
    using v by (simp add: getAllEntities_def listEntityIds_def)
  finally show ?thesis .
qed

text \<open>
  Claim C8. When the file of the id \<open>i\<close> holds a text that does not parse, reading one,
  updating and deleting \<open>i\<close> answer 404 and change nothing; the listing of the store, and
  so every page of every list request, is the one of the store without that file; and
  a create whose id is a string that leads to that file answers 204 and puts a record
  with version 1 in its place.
\<close>

theorem unparseable_is_absent:
  assumes "garbage_at files storeName i"
  shows "handleFetch P files now
           \<lparr>reqMethod = ''GET'', segments = [storeName, i], query = q, reqBody = bd\<rparr> =
           ((404, NoBody), files)
     \<and> handlePut P files now storeName i body = Inr ((404, NoBody), files)
     \<and> handleDelete files now storeName i = Inr ((404, NoBody), files)
     \<and> getAllEntities files storeName = getAllEntities (remove_file (storeName, safeId i) files) storeName
     \<and> handleGet P files storeName q = handleGet P (remove_file (storeName, safeId i) files) storeName q
     \<and> (map_of kvs ''id'' = Some (JStr r) \<and> safeId r = safeId i \<longrightarrow>
          (\<exists>E files'.
             handlePost files now storeName (Json (JObj kvs)) = Inr ((204, NoBody), files') \<and>
             readEntity files' storeName i = Inr (Some (JObj E)) \<and>
             map_of E ''version'' = Some (JNum 1) \<and>
             \<not> garbage_at files' storeName i))"
proof (intro conjI impI)
  from assms have ok: "valid_store_name storeName" "safeId i \<noteq> []"
    and rd: "readEntity files storeName i = Inr None"
    by (simp_all add: garbage_atD)
  have v: "assertValidStoreName storeName = Inr ()"
    using ok(1) by (simp add: assertValidStoreName_def valid_store_name_def)
  show "handleFetch P files now
           \<lparr>reqMethod = ''GET'', segments = [storeName, i], query = q, reqBody = bd\<rparr> =
           ((404, NoBody), files)"
    using v rd by (simp add: handleFetch_def route_def)
  show "handlePut P files now storeName i body = Inr ((404, NoBody), files)"
    using rd by (rule handlePut_absent)
  show "handleDelete files now storeName i = Inr ((404, NoBody), files)"
    using rd by (simp add: handleDelete_def)
  show g: "getAllEntities files storeName =
      getAllEntities (remove_file (storeName, safeId i) files) storeName"
    using assms by (simp add: getAllEntities_remove_garbage)
  show "handleGet P files storeName q = handleGet P (remove_file (storeName, safeId i) files) storeName q"
    using g by (simp add: handleGet_def)
  assume a: "map_of kvs ''id'' = Some (JStr r) \<and> safeId r = safeId i"
  let ?E = "assoc_set ''updatedAt'' (JStr now)
              (assoc_set ''version'' (JNum 1) (assoc_set ''id'' (JStr r) kvs))"
  let ?files = "assoc_set (storeName, safeId i) (Json (JObj ?E)) files"
  have rd': "readEntity files storeName r = Inr None"
    using rd a readEntity_cong [of r i files storeName] by simp
  have h: "handlePost files now storeName (Json (JObj kvs)) = Inr ((204, NoBody), ?files)"
    using handlePost_absent [of kvs "JStr r" r files storeName None now] a rd' by simp
  have r: "readEntity ?files storeName i = Inr (Some (JObj ?E))"
    using ok by (rule readEntity_after_write)
  have f: "map_of ?E ''version'' = Some (JNum 1)"
    by (simp add: map_of_assoc_set)
  have n: "\<not> garbage_at ?files storeName i"
    using ok by (simp add: garbage_at_def entityPath_def assertValidStoreName_def
        valid_store_name_def map_of_assoc_set)
  from h r f n show "\<exists>E files'.
             handlePost files now storeName (Json (JObj kvs)) = Inr ((204, NoBody), files') \<and>
             readEntity files' storeName i = Inr (Some (JObj E)) \<and>
             map_of E ''version'' = Some (JNum 1) \<and>
             \<not> garbage_at files' storeName i"
    by blast
qed

lemma garbage_g: "garbage_at store2 ''memos'' ''g''"
  using valid_memos
  by (simp add: garbage_at_def entityPath_def assertValidStoreName_def valid_store_name_def
      store2_def safeId_def)

theorem unparseable_is_absent_witness:
  "garbage_at store2 ''memos'' ''g''
   \<and> (map_of [(''id'', JStr ''g'')] ''id'' = Some (JStr ''g'') \<and> safeId ''g'' = safeId ''g'')
   \<and> handleFetch ref_platform store2 t1
        \<lparr>reqMethod = ''GET'', segments = [''memos'', ''g''], query = [], reqBody = Malformed\<rparr> =
        ((404, NoBody), store2)
   \<and> handlePut ref_platform store2 t1 ''memos'' ''g'' (Json (JObj [(''version'', JNum 1)])) =
        Inr ((404, NoBody), store2)
   \<and> handleDelete store2 t1 ''memos'' ''g'' = Inr ((404, NoBody), store2)
   \<and> getAllEntities store2 ''memos'' = getAllEntities (remove_file (''memos'', safeId ''g'') store2) ''memos''
   \<and> handleGet ref_platform store2 ''memos'' [] =
       handleGet ref_platform (remove_file (''memos'', safeId ''g'') store2) ''memos'' []
   \<and> (\<exists>E files'.
         handlePost store2 t1 ''memos'' (Json (JObj [(''id'', JStr ''g'')])) = Inr ((204, NoBody), files') \<and>
         readEntity files' ''memos'' ''g'' = Inr (Some (JObj E)) \<and>
         map_of E ''version'' = Some (JNum 1) \<and>
         \<not> garbage_at files' ''memos'' ''g'')"
proof -
  have h: "map_of [(''id'', JStr ''g'')] ''id'' = Some (JStr ''g'') \<and> safeId ''g'' = safeId ''g''"
    by simp
  show ?thesis
    using unparseable_is_absent [OF garbage_g, of ref_platform t1 "[]" Malformed
        "Json (JObj [(''version'', JNum 1)])" "[(''id'', JStr ''g'')]" "''g''"]
      garbage_g h
    by blast
qed

subsection \<open>Listing: the page size\<close>

lemma js_slice_NaN: "js_slice xs k NaN = []"
  by (simp add: js_slice_def)

lemma js_slice_Num:
  "0 \<le> n \<Longrightarrow> js_slice xs k (Num (int k + n)) = take (nat n) (drop k xs)"
  by (auto simp: js_slice_def Let_def min_def nat_diff_distrib)

lemma js_slice_0: "0 \<le> n \<Longrightarrow> js_slice xs 0 (Num n) = take (nat n) xs"
  using js_slice_Num [of n xs 0] by simp

lemma pageSize_range: "pageSize q = Num n \<Longrightarrow> 1 \<le> n \<and> n \<le> 1000"
  by (cases "parseInt10 (case map_of q ''size'' of None \<Rightarrow> ''100'' | Some s \<Rightarrow> s)")
    (auto simp: pageSize_def)

lemma pageSize_default: "map_of q ''size'' = None \<Longrightarrow> pageSize q = Num 100"
  by (simp add: pageSize_def parseInt10_def js_space_def is_digit_def double_of_def double_abs_def)

lemma findIndex_less: "findIndex p xs = Inr (Some i) \<Longrightarrow> i < length xs"
proof (induction xs arbitrary: i)
  case Nil
  then show ?case by simp
next
  case (Cons x xs)
  then show ?case
    by (auto split: sum.splits if_splits)
qed

lemma startIndexOf_le: "startIndexOf P d a xs = Inr k \<Longrightarrow> k \<le> length xs"
  using findIndex_less [of "laterThanId P (the d) (the a)" xs k] findIndex_less [of "laterThan P (the d)" xs k]
  by (auto simp: startIndexOf_def split: option.splits sum.splits)

text \<open>
  With a size that \<^verbatim>\<open>parseInt\<close> does not read as a number, \<^verbatim>\<open>Math.max\<close> and \<^verbatim>\<open>Math.min\<close>
  hand the \<^verbatim>\<open>NaN\<close> on, the slice ends at index 0 and the comparison with \<^verbatim>\<open>NaN\<close> is
  false: the page is empty and \<^verbatim>\<open>hasMore\<close> is false, whatever records the sort and the
  search of the start index have gone through.
\<close>

lemma handleGet_size_NaN:
  assumes "pageSize q = NaN" and "getAllEntities files s = Inr unsorted"
    and "sort_by (compareCursor P) unsorted = Inr all"
    and "startIndexOf P (fst (parseCursor P (map_of q ''after'') (map_of q ''after_id'')))
           (snd (parseCursor P (map_of q ''after'') (map_of q ''after_id''))) all = Inr k"
  shows "handleGet P files s q = Inr (200, PageBody [] False)"
  using assms by (simp add: handleGet_def Let_def js_slice_NaN)

text \<open>
  With a size that is read as a number, the page is the first \<open>n\<close> records from the
  start index on, \<open>n\<close> the size brought into 1..1000, and \<^verbatim>\<open>hasMore\<close> says that more than
  \<open>n\<close> records were left. An array has fewer than \<open>2 ^ 32\<close> elements, so the sum
  \<^verbatim>\<open>startIndex + size + 1\<close> is exact.
\<close>

lemma handleGet_size_Num:
  assumes "pageSize q = Num n" and "getAllEntities files s = Inr unsorted"
    and "c = parseCursor P (map_of q ''after'') (map_of q ''after_id'')"
    and "sort_by (compareCursor P) unsorted = Inr all" and "length all < 2 ^ 32"
    and "startIndexOf P (fst c) (snd c) all = Inr k"
    and "rest = drop k all"
  shows "handleGet P files s q = Inr (200, PageBody (take (nat n) rest) (int (length rest) > n))"
proof -
  from assms(1) have n: "1 \<le> n" "n \<le> 1000"
    by (simp_all add: pageSize_range)
  from assms(6) have "k \<le> length all"
    by (rule startIndexOf_le)
  with assms(5) have k: "int k < 2 ^ 32"
    by simp
  have d1: "double_of (int k + n) = int k + n"
    using k n by (intro double_of_safe) simp
  have d2: "double_of (int k + n + 1) = int k + n + 1"
    using k n by (intro double_of_safe) simp
  have sl: "js_slice all k (Num (int k + n + 1)) = take (nat (n + 1)) rest"
    using js_slice_Num [of "n + 1" all k] n assms(7) by (simp add: add.assoc)
  have len: "int (length (take (nat (n + 1)) rest)) > n \<longleftrightarrow> int (length rest) > n"
    using n by auto
  have tk: "take (nat n) (take (nat (n + 1)) rest) = take (nat n) rest"
    using n by (simp add: min_def)
  have sm: "\<not> int (length rest) > n \<Longrightarrow> take (nat (n + 1)) rest = take (nat n) rest"
    using n by simp
  show ?thesis
    using assms(1,2,4,6) assms(3) [symmetric] sl len tk sm n d1 d2
    by (simp add: handleGet_def Let_def js_slice_0)
qed

text \<open>
  Claim C6 at a size that is not numeric. \<open>store1\<close> holds two records, and the request
  with \<^verbatim>\<open>size=abc\<close> is answered with an empty page and \<^verbatim>\<open>hasMore\<close> false: the effective
  limit is \<^verbatim>\<open>NaN\<close>, not a number of 1..1000, and \<^verbatim>\<open>hasMore\<close> is false although records
  exist beyond the page.
\<close>

theorem size_not_numeric:
  "pageSize [(''size'', ''abc'')] = NaN \<and>
   getAllEntities store1 ''memos'' = Inr [memo_a, tomb_d] \<and>
   handleGet ref_platform store1 ''memos'' [(''size'', ''abc'')] = Inr (200, PageBody [] False)"
  by code_simp

subsection \<open>Listing: the cursor in one parameter\<close>

lemma split_comma_plain: "CHR '','' \<notin> set s \<Longrightarrow> split_comma s = [s]"
  by (induction s) auto

lemma split_comma_append:
  "CHR '','' \<notin> set t \<Longrightarrow> split_comma (t @ CHR '','' # r) = t # split_comma r"
  by (induction t) auto

lemma parseCursor_joined:
  assumes "t \<noteq> []" "CHR '','' \<notin> set t" "a \<noteq> []" "CHR '','' \<notin> set a"
  shows "parseCursor P (Some (t @ CHR '','' # a)) None = parseCursor P (Some t) (Some a)"
  using assms by (simp add: parseCursor_def split_comma_append split_comma_plain)

text \<open>
  Claim C7, as stated, fails for an id that contains a comma: the joined parameter is
  split at every comma and the id is the second part only. The store holds one record
  with the id \<^verbatim>\<open>a,b\<close>; with the cursor of that record given in two parameters the page is
  empty, given joined the page holds the record again.
\<close>

theorem joined_cursor_counterexample:
  "handleGet ref_platform store_comma ''memos'' [(''after'', t0), (''after_id'', ''a,b'')] =
     Inr (200, PageBody [] False) \<and>
   handleGet ref_platform store_comma ''memos'' [(''after'', t0 @ '','' @ ''a,b'')] =
     Inr (200, PageBody [rec_comma] False)"
  by code_simp

text \<open>
  Claim C7, amended. For a timestamp \<open>t\<close> and an id \<open>a\<close> that are not empty and contain no
  comma, the list request with \<^verbatim>\<open>after\<close> = \<open>t,a\<close> and no \<^verbatim>\<open>after_id\<close> has the same answer as
  the request with \<^verbatim>\<open>after\<close> = \<open>t\<close> and \<^verbatim>\<open>after_id\<close> = \<open>a\<close>, the other parameters being the
  same.
\<close>

theorem joined_cursor_equiv:
  assumes "t \<noteq> []" and "CHR '','' \<notin> set t" and "a \<noteq> []" and "CHR '','' \<notin> set a"
    and "map_of q ''after_id'' = None"
  shows "handleGet P files storeName ((''after'', t @ CHR '','' # a) # q) =
         handleGet P files storeName ((''after'', t) # (''after_id'', a) # q)"
proof -
  have "pageSize ((''after'', t @ CHR '','' # a) # q) = pageSize ((''after'', t) # (''after_id'', a) # q)"
    by (simp add: pageSize_def)
  moreover have "parseCursor P (Some (t @ CHR '','' # a)) None = parseCursor P (Some t) (Some a)"
    using assms(1-4) by (rule parseCursor_joined)
  ultimately show ?thesis
    using assms(5) by (simp add: handleGet_def)
qed

theorem joined_cursor_equiv_witness:
  "t0 \<noteq> [] \<and> CHR '','' \<notin> set t0 \<and> ''a'' \<noteq> [] \<and> CHR '','' \<notin> set ''a'' \<and>
   map_of [(''size'', ''1'')] ''after_id'' = None \<and>
   handleGet ref_platform store1 ''memos'' [(''after'', t0 @ CHR '','' # ''a''), (''size'', ''1'')] =
   handleGet ref_platform store1 ''memos'' [(''after'', t0), (''after_id'', ''a''), (''size'', ''1'')]"
proof -
  have h: "t0 \<noteq> []" "CHR '','' \<notin> set t0" "''a'' \<noteq> []" "CHR '','' \<notin> set ''a''"
    "map_of [(''size'', ''1'')] ''after_id'' = None"
    by (simp_all add: t0_def)
  show ?thesis
    using joined_cursor_equiv [OF h, of ref_platform store1 "''memos''"] h by simp
qed

subsection \<open>Listing: fetching the whole feed\<close>

text \<open>
  Claim C2 at two records that share their \<^verbatim>\<open>updatedAt\<close> and have the ids \<^verbatim>\<open>a\<close> and \<^verbatim>\<open>B\<close>.
  The sort puts \<^verbatim>\<open>a\<close> before \<^verbatim>\<open>B\<close> (\<^verbatim>\<open>localeCompare\<close>), the cursor test asks for an id
  greater than \<^verbatim>\<open>a\<close> in the order of the code units, where \<^verbatim>\<open>B\<close> is smaller. With pages of
  one record the first page is \<^verbatim>\<open>a\<close> with \<^verbatim>\<open>hasMore\<close> true, the page after its cursor is
  empty with \<^verbatim>\<open>hasMore\<close> false, and the fetch ends without the record \<^verbatim>\<open>B\<close>.
\<close>

theorem fetch_all_skips_record:
  "getAllEntities store_aB ''memos'' = Inr [rec_a, rec_B] \<and>
   ref_localeCompare ''a'' ''B'' < 0 \<and> \<not> str_gt ''B'' ''a'' \<and>
   handleGet ref_platform store_aB ''memos'' [(''size'', ''1'')] = Inr (200, PageBody [rec_a] True) \<and>
   handleGet ref_platform store_aB ''memos'' ((''size'', ''1'') # cursor_of rec_a) =
     Inr (200, PageBody [] False) \<and>
   fetch_all 5 ref_platform store_aB ''memos'' ''1'' [] = Some [rec_a]"
  by code_simp

subsection \<open>Every record the handlers write is stored under its id\<close>

lemma list_all_assoc_set: "list_all Q xs \<Longrightarrow> Q (k, v) \<Longrightarrow> list_all Q (assoc_set k v xs)"
  by (induction xs) auto

lemma consistent_stored_at:
  assumes "consistent files" and "readEntity files s i = Inr (Some e)" and "truthy e"
  shows "stored_at files s i e"
proof -
  from assms(2) have "map_of files (s, safeId i) = Some (Json e)"
    by (simp add: readEntity_Some)
  then have "((s, safeId i), Json e) \<in> set files"
    by (rule map_of_SomeD)
  with assms(1) have "consistent_file ((s, safeId i), Json e)"
    by (auto simp: consistent_def list_all_iff)
  with assms(2,3) show ?thesis
    by (auto simp: stored_at_def consistent_file_def split: option.splits json.splits)
qed

lemma consistent_write:
  assumes "consistent files" and "map_of E ''id'' = Some (JStr r)"
  shows "consistent (assoc_set (s, safeId r) (Json (JObj E)) files)"
  unfolding consistent_def
  using assms by (intro list_all_assoc_set) (simp_all add: consistent_def consistent_file_def)

lemma handlePost_consistent:
  assumes "consistent files" and "handlePost files now s body = Inr (r, files')"
  shows "consistent files'"
proof (cases "\<exists>bd. r = (204, bd)")
  case False
  with assms show ?thesis
    by (auto simp: handlePost_def Let_def split: content.splits sum.splits option.splits if_splits)
next
  case True
  then obtain bd where r: "r = (204, bd)" by blast
  from assms(2) r obtain b where b: "body = Json b"
    by (cases body) (simp_all add: handlePost_def)
  from assms(2) r b obtain iv x where iv: "getProp b ''id'' = Inr (Some iv)" "iv \<noteq> JNull"
    "js_String iv = Inr x"
    by (auto simp: handlePost_def split: sum.splits option.splits if_splits)
  let ?E = "assoc_set ''updatedAt'' (JStr now)
              (assoc_set ''version'' (JNum 1) (assoc_set ''id'' (JStr x) (spread b)))"
  have m: "map_of ?E ''id'' = Some (JStr x)"
    by (simp add: map_of_assoc_set)
  from assms(2) r b iv have w: "writeEntity files s ?E = Inr files'"
    by (auto simp: handlePost_def Let_def split: sum.splits option.splits if_splits)
  then have ok: "valid_store_name s \<and> safeId x \<noteq> []"
    using m by (auto simp: writeEntity_def entityPath_Inr assertValidStoreName_def valid_store_name_def
        split: sum.splits if_splits)
  with w m have "files' = assoc_set (s, safeId x) (Json (JObj ?E)) files"
    using writeEntity_Inr [of s ?E x files] by simp
  with assms(1) m show ?thesis
    using consistent_write [of files ?E x s] by simp
qed

lemma handlePut_consistent:
  assumes "consistent files" and "handlePut P files now s i body = Inr (r, files')"
  shows "consistent files'"
proof (cases "\<exists>bd. r = (204, bd)")
  case False
  with assms show ?thesis
    by (auto simp: handlePut_def Let_def split: content.splits sum.splits option.splits if_splits)
next
  case True
  then obtain bd where r: "r = (204, bd)" by blast
  from assms(2) r obtain e where e: "readEntity files s i = Inr (Some e)" "truthy e"
    by (auto simp: handlePut_def split: sum.splits option.splits if_splits)
  with assms(1) have "stored_at files s i e"
    by (rule consistent_stored_at)
  then obtain x where x: "field e ''id'' = Some (JStr x)" "safeId x = safeId i"
    and ok: "valid_store_name s" "safeId i \<noteq> []"
    by (rule stored_atD)
  from assms(2) r e obtain b where b: "body = Json b"
    by (cases body) (simp_all add: handlePut_def)
  from assms(2) r e b obtain ev where ev: "plus_one (field e ''version'') = Inr ev"
    by (auto simp: handlePut_def split: sum.splits option.splits if_splits)
  let ?E = "assoc_set ''updatedAt'' (JStr now)
              (with_prop ''version'' (json_of_plus ev)
                 (with_prop ''id'' (field e ''id'') (spread b)))"
  have m: "map_of ?E ''id'' = Some (JStr x)"
    using x(1)
    by (cases ev rule: json_of_plus.cases)
      (simp_all add: map_of_assoc_set)
  from assms(2) r e b ev have w: "writeEntity files s ?E = Inr files'"
    by (auto simp: handlePut_def Let_def split: sum.splits option.splits if_splits)
  with m ok x(2) have "files' = assoc_set (s, safeId x) (Json (JObj ?E)) files"
    using writeEntity_Inr [of s ?E x files] by simp
  with assms(1) m show ?thesis
    using consistent_write [of files ?E x s] by simp
qed

lemma handleDelete_consistent:
  assumes "consistent files" and "handleDelete files now s i = Inr (r, files')"
  shows "consistent files'"
proof (cases "\<exists>bd. r = (204, bd)")
  case False
  with assms show ?thesis
    by (auto simp: handleDelete_def Let_def split: sum.splits option.splits if_splits)
next
  case True
  then obtain bd where r: "r = (204, bd)" by blast
  from assms(2) r obtain e where e: "readEntity files s i = Inr (Some e)" "truthy e"
    by (auto simp: handleDelete_def split: sum.splits option.splits if_splits)
  with assms(1) have st: "stored_at files s i e"
    by (rule consistent_stored_at)
  then obtain x where x: "field e ''id'' = Some (JStr x)" "safeId x = safeId i"
    by (rule stored_atD)
  let ?T = "[(''id'', JStr x), (''version'', JNum (- 1)), (''updatedAt'', JStr now)]"
  have "handleDelete files now s i =
      Inr ((204, NoBody), assoc_set (s, safeId i) (Json (JObj ?T)) files)"
    using st x(1) by (rule handleDelete_stored)
  with assms(2) x(2) have "files' = assoc_set (s, safeId x) (Json (JObj ?T)) files"
    by simp
  with assms(1) show ?thesis
    using consistent_write [of files ?T x s] by simp
qed

text \<open>
  The empty store is consistent and every request keeps the store consistent, so the
  records of a store that only the server writes are all stored under their ids.
\<close>

lemma consistent_empty: "consistent []"
  by (simp add: consistent_def)

lemma route_consistent:
  assumes "consistent files" and "route P files now req s i = Inr (r, files')"
  shows "consistent files'"
proof (cases i)
  case None
  show ?thesis
  proof (cases "reqMethod req = ''GET''")
    case True
    with None assms show ?thesis
      by (auto simp: route_def split: sum.splits)
  next
    case False
    show ?thesis
    proof (cases "reqMethod req = ''POST''")
      case True
      with None assms(2) have "handlePost files now s (reqBody req) = Inr (r, files')"
        by (simp add: route_def)
      with assms(1) show ?thesis by (rule handlePost_consistent)
    next
      case False
      with None \<open>reqMethod req \<noteq> ''GET''\<close> assms show ?thesis
        by (simp add: route_def)
    qed
  qed
next
  case (Some j)
  consider (get) "reqMethod req = ''GET''"
    | (put) "reqMethod req \<noteq> ''GET''" "reqMethod req = ''PUT''"
    | (del) "reqMethod req \<noteq> ''GET''" "reqMethod req \<noteq> ''PUT''" "reqMethod req = ''DELETE''"
    | (other) "reqMethod req \<noteq> ''GET''" "reqMethod req \<noteq> ''PUT''" "reqMethod req \<noteq> ''DELETE''"
    by blast
  then show ?thesis
  proof cases
    case get
    with Some assms show ?thesis
      by (auto simp: route_def split: sum.splits option.splits if_splits)
  next
    case put
    with Some assms(2) have "handlePut P files now s j (reqBody req) = Inr (r, files')"
      by (simp add: route_def)
    with assms(1) show ?thesis by (rule handlePut_consistent)
  next
    case del
    with Some assms(2) have "handleDelete files now s j = Inr (r, files')"
      by (simp add: route_def)
    with assms(1) show ?thesis by (rule handleDelete_consistent)
  next
    case other
    with Some assms show ?thesis
      by (simp add: route_def)
  qed
qed

lemma handleFetch_consistent:
  assumes "consistent files"
  shows "consistent (snd (handleFetch P files now req))"
proof (cases "reqMethod req = ''OPTIONS''")
  case True
  with assms show ?thesis by (simp add: handleFetch_def)
next
  case False
  show ?thesis
  proof (cases "parsePath (segments req)")
    case None
    with False assms show ?thesis by (simp add: handleFetch_def)
  next
    case (Some si)
    obtain s i where si: "si = (s, i)" by (cases si)
    show ?thesis
    proof (cases "assertValidStoreName s")
      case (Inl e)
      with False Some si assms show ?thesis by (simp add: handleFetch_def)
    next
      case (Inr u)
      show ?thesis
      proof (cases "route P files now req s i")
        case (Inl e)
        with False Some si Inr assms show ?thesis by (simp add: handleFetch_def)
      next
        case r: (Inr rf)
        obtain r files' where rf: "rf = (r, files')" by (cases rf)
        with r assms have "consistent files'"
          using route_consistent [of files P now req s i r files'] by simp
        with False Some si Inr r rf show ?thesis by (simp add: handleFetch_def)
      qed
    qed
  qed
qed

subsection \<open>The feed when the sort and the cursor test use one order\<close>

lemma str_gt_irrefl: "\<not> str_gt a a"
  by (induction a) auto

lemma str_gt_asym: "str_gt a b \<Longrightarrow> \<not> str_gt b a"
  by (induction a b rule: str_gt.induct) auto

lemma of_char_neq: "x \<noteq> y \<Longrightarrow> (of_char x :: nat) \<noteq> of_char y"
  by simp

lemma str_gt_total: "a \<noteq> b \<Longrightarrow> str_gt a b \<or> str_gt b a"
proof (induction a b rule: str_gt.induct)
  case (1 b)
  then show ?case by (cases b) auto
next
  case (2 x xs)
  then show ?case by simp
next
  case (3 x xs y ys)
  show ?case
  proof (cases "x = y")
    case True
    with 3 show ?thesis by auto
  next
    case False
    then have "(of_char x :: nat) < of_char y \<or> (of_char y :: nat) < of_char x"
      using of_char_neq [of x y] by linarith
    then show ?thesis by auto
  qed
qed

lemma str_gt_trans: "str_gt a b \<Longrightarrow> str_gt b c \<Longrightarrow> str_gt a c"
proof (induction a arbitrary: b c)
  case Nil
  then show ?case by simp
next
  case (Cons x xs)
  from Cons.prems(2) obtain y ys where b: "b = y # ys"
    by (cases b) auto
  show ?case
  proof (cases c)
    case Nil
    then show ?thesis by simp
  next
    case c: (Cons z zs)
    from Cons.prems b c have 1: "(of_char x :: nat) > of_char y \<or> (x = y \<and> str_gt xs ys)"
      and 2: "(of_char y :: nat) > of_char z \<or> (y = z \<and> str_gt ys zs)"
      by simp_all
    show ?thesis
    proof (cases "x = y \<and> y = z")
      case True
      with 1 2 have "str_gt xs ys" "str_gt ys zs" by auto
      then have "str_gt xs zs" by (rule Cons.IH)
      with True c show ?thesis by simp
    next
      case False
      with 1 2 have "(of_char x :: nat) > of_char z" by auto
      with c show ?thesis by simp
    qed
  qed
qed

lemma bits_pos: "0 < a \<Longrightarrow> 0 < bits a"
  by (subst bits.simps) simp

lemma bits_lower: "0 < a \<Longrightarrow> 2 ^ (bits a - 1) \<le> a"
proof (induction a rule: bits.induct)
  case (1 n)
  show ?case
  proof (cases "n div 2 = 0")
    case True
    with 1(2) have "n = 1" by simp
    then show ?thesis
      by (simp add: bits.simps [of 1] bits.simps [of 0])
  next
    case False
    with 1(2) have h: "0 < n div 2" by simp
    with 1 have ih: "2 ^ (bits (n div 2) - 1) \<le> n div 2" by simp
    from h have "0 < bits (n div 2)" by (rule bits_pos)
    then have "(2 :: int) ^ bits (n div 2) = 2 * 2 ^ (bits (n div 2) - 1)"
      by (cases "bits (n div 2)") simp_all
    with ih have "(2 :: int) ^ bits (n div 2) \<le> n" by simp
    moreover have "bits n - 1 = bits (n div 2)"
      using 1(2) by (subst bits.simps) simp
    ultimately show ?thesis by simp
  qed
qed

lemma double_abs_pos:
  assumes "0 < a"
  shows "0 < double_abs a"
proof (cases "a < 2 ^ 53")
  case True
  with assms show ?thesis by (simp add: double_abs_def)
next
  case False
  let ?q = "(2 :: int) ^ (bits a - 53)"
  have q: "0 < ?q" by simp
  have "?q \<le> 2 ^ (bits a - 1)"
    by (rule power_increasing) simp_all
  also have "\<dots> \<le> a" using assms by (rule bits_lower)
  finally have "?q \<le> a" .
  with q have "0 < a div ?q"
    using pos_imp_zdiv_pos_iff [of ?q a] by blast
  then have "0 < a div ?q * ?q" "0 < (a div ?q + 1) * ?q"
    using q by simp_all
  with False show ?thesis
    by (simp add: double_abs_def Let_def)
qed

lemma double_of_sign: "double_of x \<le> 0 \<longleftrightarrow> x \<le> 0"
proof (cases "x < 0")
  case True
  then have "0 < double_abs (- x)" by (intro double_abs_pos) simp
  with True show ?thesis by (simp add: double_of_def)
next
  case False
  show ?thesis
  proof (cases "x = 0")
    case True
    then show ?thesis by (simp add: double_of_def double_abs_def)
  next
    case False
    with \<open>\<not> x < 0\<close> have "0 < x" by simp
    then have "0 < double_abs x" by (rule double_abs_pos)
    with \<open>0 < x\<close> show ?thesis by (simp add: double_of_def)
  qed
qed

lemma set_insert_by: "insert_by cmp x xs = Inr ys \<Longrightarrow> set ys = insert x (set xs)"
proof (induction xs arbitrary: ys)
  case Nil
  then show ?case by auto
next
  case (Cons y xs)
  show ?case
  proof (cases "cmp x y")
    case (Inl e)
    with Cons.prems show ?thesis by simp
  next
    case (Inr c)
    show ?thesis
    proof (cases "nonpositive c")
      case True
      with Inr Cons.prems show ?thesis by auto
    next
      case False
      with Inr Cons.prems obtain zs where zs: "insert_by cmp x xs = Inr zs" "ys = y # zs"
        by (auto split: sum.splits)
      from zs(1) have "set zs = insert x (set xs)" by (rule Cons.IH)
      with zs(2) show ?thesis by auto
    qed
  qed
qed

lemma set_sort_by: "sort_by cmp xs = Inr ys \<Longrightarrow> set ys = set xs"
proof (induction xs arbitrary: ys)
  case Nil
  then show ?case by simp
next
  case (Cons x xs)
  from Cons.prems obtain zs where zs: "sort_by cmp xs = Inr zs" "insert_by cmp x zs = Inr ys"
    by (auto split: sum.splits)
  from zs(1) have "set zs = set xs" by (rule Cons.IH)
  with set_insert_by [OF zs(2)] show ?case by simp
qed

lemma length_insert_by: "insert_by cmp x xs = Inr ys \<Longrightarrow> length ys = Suc (length xs)"
proof (induction xs arbitrary: ys)
  case Nil
  then show ?case by auto
next
  case (Cons y xs)
  then show ?case
    by (auto split: sum.splits if_splits)
qed

lemma length_sort_by: "sort_by cmp xs = Inr ys \<Longrightarrow> length ys = length xs"
proof (induction xs arbitrary: ys)
  case Nil
  then show ?case by simp
next
  case (Cons x xs)
  from Cons.prems obtain zs where zs: "sort_by cmp xs = Inr zs" "insert_by cmp x zs = Inr ys"
    by (auto split: sum.splits)
  from zs(1) have "length zs = length xs" by (rule Cons.IH)
  with length_insert_by [OF zs(2)] show ?case by simp
qed

lemma count_insert_by: "insert_by cmp x xs = Inr ys \<Longrightarrow> count_list ys y = count_list (x # xs) y"
proof (induction xs arbitrary: ys)
  case Nil
  then show ?case by auto
next
  case (Cons z xs)
  then show ?case
    by (auto split: sum.splits if_splits)
qed

lemma count_sort_by: "sort_by cmp xs = Inr ys \<Longrightarrow> count_list ys y = count_list xs y"
proof (induction xs arbitrary: ys)
  case Nil
  then show ?case by simp
next
  case (Cons x xs)
  from Cons.prems obtain zs where zs: "sort_by cmp xs = Inr zs" "insert_by cmp x zs = Inr ys"
    by (auto split: sum.splits)
  from zs(1) have "count_list zs y = count_list xs y" by (rule Cons.IH)
  with count_insert_by [OF zs(2), of y] show ?case by simp
qed

lemma distinct_map_insert_by:
  "insert_by cmp x xs = Inr ys \<Longrightarrow> distinct (map f ys) \<longleftrightarrow> distinct (map f (x # xs))"
proof (induction xs arbitrary: ys)
  case Nil
  then show ?case by auto
next
  case (Cons y xs)
  show ?case
  proof (cases "cmp x y")
    case (Inl e)
    with Cons.prems show ?thesis by simp
  next
    case (Inr c)
    show ?thesis
    proof (cases "nonpositive c")
      case True
      with Inr Cons.prems show ?thesis by auto
    next
      case False
      with Inr Cons.prems obtain zs where zs: "insert_by cmp x xs = Inr zs" "ys = y # zs"
        by (auto split: sum.splits)
      from zs(1) have "distinct (map f zs) \<longleftrightarrow> distinct (map f (x # xs))" by (rule Cons.IH)
      with set_insert_by [OF zs(1)] zs(2) show ?thesis by auto
    qed
  qed
qed

lemma distinct_map_sort_by:
  "sort_by cmp xs = Inr ys \<Longrightarrow> distinct (map f ys) \<longleftrightarrow> distinct (map f xs)"
proof (induction xs arbitrary: ys)
  case Nil
  then show ?case by simp
next
  case (Cons x xs)
  from Cons.prems obtain zs where zs: "sort_by cmp xs = Inr zs" "insert_by cmp x zs = Inr ys"
    by (auto split: sum.splits)
  from zs(1) have "distinct (map f zs) \<longleftrightarrow> distinct (map f xs)" by (rule Cons.IH)
  with distinct_map_insert_by [OF zs(2), of f] set_sort_by [OF zs(1)] show ?case by simp
qed

text \<open>
  On a set of records where the comparator returns, and its sign is that of a total
  preorder \<open>R\<close>, the sort returns and its result is sorted by \<open>R\<close>.
\<close>

lemma sorted_insert_by:
  assumes cmp: "\<And>a b. a \<in> A \<Longrightarrow> b \<in> A \<Longrightarrow> \<exists>c. cmp a b = Inr c \<and> (nonpositive c \<longleftrightarrow> R a b)"
    and tot: "\<And>a b. a \<in> A \<Longrightarrow> b \<in> A \<Longrightarrow> \<not> R a b \<Longrightarrow> R b a"
    and trans: "\<And>a b c. a \<in> A \<Longrightarrow> b \<in> A \<Longrightarrow> c \<in> A \<Longrightarrow> R a b \<Longrightarrow> R b c \<Longrightarrow> R a c"
    and "x \<in> A" and "set xs \<subseteq> A" and "sorted_wrt R xs"
  shows "\<exists>ys. insert_by cmp x xs = Inr ys \<and> sorted_wrt R ys"
  using assms(5,6)
proof (induction xs)
  case Nil
  show ?case by simp
next
  case (Cons y ys)
  from Cons.prems have y: "y \<in> A" and ys: "set ys \<subseteq> A"
    and yz: "\<forall>z\<in>set ys. R y z"
    and sorted: "sorted_wrt R ys"
    by simp_all
  from cmp [OF assms(4) y] obtain c where c: "cmp x y = Inr c" "nonpositive c \<longleftrightarrow> R x y"
    by blast
  show ?case
  proof (cases "R x y")
    case True
    have "\<forall>z\<in>set ys. R x z"
    proof
      fix z assume z: "z \<in> set ys"
      with yz ys have "R y z" "z \<in> A" by auto
      with True assms(4) y show "R x z"
        by (intro trans [of x y z])
    qed
    with True yz sorted c show ?thesis by simp
  next
    case False
    with assms(4) y have yx: "R y x"
      by (intro tot [of x y])
    from ys sorted obtain zs where zs: "insert_by cmp x ys = Inr zs" "sorted_wrt R zs"
      using Cons.IH by blast
    from zs(1) have "set zs = insert x (set ys)" by (rule set_insert_by)
    with yx yz zs(2) have "sorted_wrt R (y # zs)" by simp
    with False c zs(1) show ?thesis by simp
  qed
qed

lemma sorted_sort_by:
  assumes cmp: "\<And>a b. a \<in> A \<Longrightarrow> b \<in> A \<Longrightarrow> \<exists>c. cmp a b = Inr c \<and> (nonpositive c \<longleftrightarrow> R a b)"
    and tot: "\<And>a b. a \<in> A \<Longrightarrow> b \<in> A \<Longrightarrow> \<not> R a b \<Longrightarrow> R b a"
    and trans: "\<And>a b c. a \<in> A \<Longrightarrow> b \<in> A \<Longrightarrow> c \<in> A \<Longrightarrow> R a b \<Longrightarrow> R b c \<Longrightarrow> R a c"
    and "set xs \<subseteq> A"
  shows "\<exists>ys. sort_by cmp xs = Inr ys \<and> sorted_wrt R ys"
  using assms(4)
proof (induction xs)
  case Nil
  show ?case by simp
next
  case (Cons x xs)
  from Cons.prems have x: "x \<in> A" and xs: "set xs \<subseteq> A" by simp_all
  from xs obtain zs where zs: "sort_by cmp xs = Inr zs" "sorted_wrt R zs"
    using Cons.IH by blast
  from zs(1) xs have sub: "set zs \<subseteq> A" by (simp add: set_sort_by)
  have "\<exists>ys. insert_by cmp x zs = Inr ys \<and> sorted_wrt R ys"
  proof (rule sorted_insert_by [where A = A])
    show "\<And>a b. a \<in> A \<Longrightarrow> b \<in> A \<Longrightarrow> \<exists>c. cmp a b = Inr c \<and> (nonpositive c \<longleftrightarrow> R a b)"
      by (rule cmp)
    show "\<And>a b. a \<in> A \<Longrightarrow> b \<in> A \<Longrightarrow> \<not> R a b \<Longrightarrow> R b a"
      by (rule tot)
    show "\<And>a b c. a \<in> A \<Longrightarrow> b \<in> A \<Longrightarrow> c \<in> A \<Longrightarrow> R a b \<Longrightarrow> R b c \<Longrightarrow> R a c"
      by (rule trans)
    show "x \<in> A" by (rule x)
    show "set zs \<subseteq> A" by (rule sub)
    show "sorted_wrt R zs" by (rule zs(2))
  qed
  with zs(1) show ?case by simp
qed

lemma feed_recordD:
  assumes "feed_record P e"
  obtains u r t where "field e ''updatedAt'' = Some (JStr u)" "u \<noteq> []" "parseDate P u = Num t"
    "field e ''id'' = Some (JStr r)" "r \<noteq> []" "time_of P e = Num t" "id_of e = r"
proof -
  from assms obtain u where u: "field e ''updatedAt'' = Some (JStr u)" "u \<noteq> []" "parseDate P u \<noteq> NaN"
    by (auto simp: feed_record_def split: option.splits json.splits)
  from assms obtain r where r: "field e ''id'' = Some (JStr r)" "r \<noteq> []"
    by (auto simp: feed_record_def split: option.splits json.splits)
  from u(3) obtain t where t: "parseDate P u = Num t"
    by (cases "parseDate P u") auto
  from u r t that show thesis
    by (simp add: time_of_def id_of_def the_string_def)
qed

lemma feed_record_conversions:
  assumes "feed_record P e"
  shows "dateTime P (field e ''updatedAt'') = Inr (time_of P e)"
    and "js_String_opt (field e ''id'') = Inr (id_of e)"
    and "\<not> cursor_fails e"
proof -
  from assms obtain u r where "field e ''updatedAt'' = Some (JStr u)" "field e ''id'' = Some (JStr r)"
    by (rule feed_recordD)
  then show "dateTime P (field e ''updatedAt'') = Inr (time_of P e)"
    and "js_String_opt (field e ''id'') = Inr (id_of e)" and "\<not> cursor_fails e"
    by (simp_all add: time_of_def id_of_def the_string_def cursor_fails_def)
qed

lemma compareCursor_le:
  assumes "code_unit_collation P" and "feed_record P a" and "feed_record P b"
  shows "\<exists>c. compareCursor P a b = Inr c \<and> (nonpositive c \<longleftrightarrow> \<not> after_cursor P b a)"
proof -
  from assms(2) obtain ta where ta: "time_of P a = Num ta" by (rule feed_recordD)
  from assms(3) obtain tb where tb: "time_of P b = Num tb" by (rule feed_recordD)
  from assms(1) have c: "localeCompare P (id_of a) (id_of b) \<le> 0 \<longleftrightarrow> \<not> str_gt (id_of a) (id_of b)"
    by (auto simp: code_unit_collation_def not_less [symmetric])
  show ?thesis
    using ta tb c feed_record_conversions(1,2) [OF assms(2)] feed_record_conversions(1,2) [OF assms(3)]
    by (auto simp: compareCursor_def after_cursor_def double_of_sign)
qed

lemma after_cursor_irrefl: "\<not> after_cursor P a a"
  by (cases "time_of P a") (simp_all add: after_cursor_def str_gt_irrefl)

lemma after_cursor_trans:
  assumes "after_cursor P a b" and "after_cursor P b c"
  shows "after_cursor P a c"
proof (cases "time_of P a")
  case NaN
  with assms(1) show ?thesis by (cases "time_of P b") (simp_all add: after_cursor_def)
next
  case a: (Num ta)
  show ?thesis
  proof (cases "time_of P b")
    case NaN
    with assms(1) show ?thesis by (simp add: after_cursor_def)
  next
    case b: (Num tb)
    show ?thesis
    proof (cases "time_of P c")
      case NaN
      with assms(2) show ?thesis by (simp add: after_cursor_def)
    next
      case c: (Num tc)
      from assms a b c have 1: "tb > ta \<or> (tb = ta \<and> str_gt (id_of b) (id_of a))"
        and 2: "tc > tb \<or> (tc = tb \<and> str_gt (id_of c) (id_of b))"
        by (simp_all add: after_cursor_def)
      then have "tc > ta \<or> (tc = ta \<and> str_gt (id_of c) (id_of a))"
        using str_gt_trans [of "id_of c" "id_of b" "id_of a"] by auto
      with a c show ?thesis by (simp add: after_cursor_def)
    qed
  qed
qed

lemma after_cursor_asym: "after_cursor P a b \<Longrightarrow> \<not> after_cursor P b a"
  using after_cursor_trans [of P a b a] after_cursor_irrefl [of P a] by blast

lemma after_cursor_total:
  assumes "feed_record P a" and "feed_record P b" and "id_of a \<noteq> id_of b"
  shows "after_cursor P a b \<or> after_cursor P b a"
proof -
  from assms(1) obtain ta where ta: "time_of P a = Num ta" by (rule feed_recordD)
  from assms(2) obtain tb where tb: "time_of P b = Num tb" by (rule feed_recordD)
  from assms(3) have "str_gt (id_of a) (id_of b) \<or> str_gt (id_of b) (id_of a)"
    by (rule str_gt_total)
  with ta tb show ?thesis
    by (auto simp: after_cursor_def)
qed

lemma sorted_wrt_conj:
  "sorted_wrt R xs \<Longrightarrow> sorted_wrt S xs \<Longrightarrow> sorted_wrt (\<lambda>a b. R a b \<and> S a b) xs"
  by (induction xs) auto

lemma distinct_map_sorted_wrt: "distinct (map f xs) \<Longrightarrow> sorted_wrt (\<lambda>a b. f a \<noteq> f b) xs"
  by (induction xs) auto

lemma feed_sorted:
  assumes coll: "code_unit_collation P" and feed: "\<forall>e\<in>set xs. feed_record P e"
    and dist: "distinct (map id_of xs)"
  shows "\<exists>ys. sort_by (compareCursor P) xs = Inr ys \<and> sorted_wrt (after_cursor P) ys"
proof -
  let ?A = "{e. feed_record P e}"
  let ?R = "\<lambda>a b. \<not> after_cursor P b a"
  have "\<exists>ys. sort_by (compareCursor P) xs = Inr ys \<and> sorted_wrt ?R ys"
  proof (rule sorted_sort_by [where A = ?A])
    fix a b assume "a \<in> ?A" "b \<in> ?A"
    then show "\<exists>c. compareCursor P a b = Inr c \<and> (nonpositive c \<longleftrightarrow> \<not> after_cursor P b a)"
      using coll by (simp add: compareCursor_le)
  next
    fix a b assume "a \<in> ?A" "b \<in> ?A" "\<not> \<not> after_cursor P b a"
    then show "\<not> after_cursor P a b"
      using after_cursor_asym [of P b a] by blast
  next
    fix a b c assume "a \<in> ?A" "b \<in> ?A" "c \<in> ?A"
      and ab: "\<not> after_cursor P b a" and bc: "\<not> after_cursor P c b"
    then have f: "feed_record P a" "feed_record P b" "feed_record P c"
      by simp_all
    show "\<not> after_cursor P c a"
    proof
      assume ca: "after_cursor P c a"
      show False
      proof (cases "id_of b = id_of a \<or> id_of b = id_of c")
        case False
        with f ab bc have "after_cursor P a b" "after_cursor P b c"
          using after_cursor_total [of P a b] after_cursor_total [of P b c] by auto
        then have "after_cursor P a c" by (rule after_cursor_trans)
        with ca show False using after_cursor_asym by blast
      next
        case True
        from f obtain ta tb tc where t: "time_of P a = Num ta" "time_of P b = Num tb" "time_of P c = Num tc"
          by (auto elim!: feed_recordD)
        from ab bc ca t True show False
          by (auto simp: after_cursor_def str_gt_irrefl dest: str_gt_asym)
      qed
    qed
  next
    show "set xs \<subseteq> ?A" using feed by auto
  qed
  then obtain ys where ys: "sort_by (compareCursor P) xs = Inr ys" "sorted_wrt ?R ys"
    by blast
  have "sorted_wrt (\<lambda>a b. id_of a \<noteq> id_of b) ys"
    using dist distinct_map_sort_by [OF ys(1), of id_of] by (intro distinct_map_sorted_wrt) simp
  with ys(2) have "sorted_wrt (\<lambda>a b. \<not> after_cursor P b a \<and> id_of a \<noteq> id_of b) ys"
    by (rule sorted_wrt_conj)
  moreover have "\<And>a b. a \<in> set ys \<Longrightarrow> b \<in> set ys \<Longrightarrow>
      \<not> after_cursor P b a \<and> id_of a \<noteq> id_of b \<Longrightarrow> after_cursor P a b"
  proof -
    fix a b assume "a \<in> set ys" "b \<in> set ys"
      and ab: "\<not> after_cursor P b a \<and> id_of a \<noteq> id_of b"
    with feed set_sort_by [OF ys(1)] have f: "feed_record P a" "feed_record P b"
      by simp_all
    with ab show "after_cursor P a b"
      using after_cursor_total [of P a b] by blast
  qed
  ultimately have "sorted_wrt (after_cursor P) ys"
    by (rule sorted_wrt_mono_rel [rotated])
  with ys(1) show ?thesis by blast
qed

lemma findIndex_takeWhile:
  assumes "\<forall>x\<in>set xs. p x = Inr (q x)"
  shows "\<exists>r. findIndex p xs = Inr r \<and>
     (case r of None \<Rightarrow> length xs | Some i \<Rightarrow> i) = length (takeWhile (\<lambda>x. \<not> q x) xs)"
  using assms
proof (induction xs)
  case Nil
  show ?case by simp
next
  case (Cons x xs)
  then obtain r where r: "findIndex p xs = Inr r"
    "(case r of None \<Rightarrow> length xs | Some i \<Rightarrow> i) = length (takeWhile (\<lambda>x. \<not> q x) xs)"
    by auto
  from Cons.prems have x: "p x = Inr (q x)" by simp
  show ?case
    using r x by (cases r) auto
qed

lemma laterThanId_feed:
  assumes "feed_record P e"
  shows "laterThanId P (time_of P c) (id_of c) e = Inr (after_cursor P c e)"
proof -
  from assms obtain t where "time_of P e = Num t" by (rule feed_recordD)
  then show ?thesis
    using feed_record_conversions(1,2) [OF assms]
    by (cases "time_of P c") (auto simp: laterThanId_def after_cursor_def)
qed

lemma startIndexOf_cursor:
  assumes "\<forall>e\<in>set xs. feed_record P e"
  shows "startIndexOf P (Some (time_of P c)) (Some (id_of c)) xs =
     Inr (length (takeWhile (\<lambda>e. \<not> after_cursor P c e) xs))"
proof -
  from assms have "\<forall>e\<in>set xs. laterThanId P (time_of P c) (id_of c) e = Inr (after_cursor P c e)"
    by (simp add: laterThanId_feed)
  then obtain r where "findIndex (laterThanId P (time_of P c) (id_of c)) xs = Inr r"
    "(case r of None \<Rightarrow> length xs | Some i \<Rightarrow> i) = length (takeWhile (\<lambda>e. \<not> after_cursor P c e) xs)"
    using findIndex_takeWhile [of xs "laterThanId P (time_of P c) (id_of c)" "after_cursor P c"]
    by blast
  then show ?thesis
    by (cases r) (simp_all add: startIndexOf_def)
qed

lemma startIndexOf_sorted:
  assumes "\<forall>e\<in>set xs. feed_record P e" and "sorted_wrt (after_cursor P) xs" and "j < length xs"
  shows "startIndexOf P (Some (time_of P (xs ! j))) (Some (id_of (xs ! j))) xs = Inr (Suc j)"
proof -
  let ?c = "xs ! j"
  have "takeWhile (\<lambda>e. \<not> after_cursor P ?c e) xs = take (Suc j) xs"
  proof (rule takeWhile_eq_take_P_nth)
    fix i assume i: "i < Suc j" "i < length xs"
    show "\<not> after_cursor P ?c (xs ! i)"
    proof (cases "i = j")
      case True
      then show ?thesis by (simp add: after_cursor_irrefl)
    next
      case False
      with i assms have "after_cursor P (xs ! i) ?c"
        by (simp add: sorted_wrt_iff_nth_less)
      then show ?thesis by (rule after_cursor_asym)
    qed
  next
    assume "Suc j < length xs"
    with assms have "after_cursor P ?c (xs ! Suc j)"
      by (simp add: sorted_wrt_iff_nth_less)
    then show "\<not> \<not> after_cursor P ?c (xs ! Suc j)" by simp
  qed
  with assms(3) show ?thesis
    using startIndexOf_cursor [OF assms(1), of ?c] by simp
qed

lemma parseCursor_cursor_of:
  assumes "feed_record P e"
  shows "parseCursor P (map_of ((''size'', sz) # cursor_of e) ''after'')
           (map_of ((''size'', sz) # cursor_of e) ''after_id'') =
         (Some (time_of P e), Some (id_of e))"
proof -
  from assms obtain u r t where "field e ''updatedAt'' = Some (JStr u)" "u \<noteq> []"
    "field e ''id'' = Some (JStr r)" "r \<noteq> []"
    by (rule feed_recordD)
  then show ?thesis
    by (simp add: cursor_of_def parseCursor_def time_of_def id_of_def the_string_def)
qed

lemma pageSize_cursor_of: "pageSize ((''size'', sz) # c) = pageSize [(''size'', sz)]"
  by (simp add: pageSize_def)

lemma fetch_from:
  assumes all: "getAllEntities files s = Inr unsorted"
    and xs: "sort_by (compareCursor P) unsorted = Inr xs" and small: "length xs < 2 ^ 32"
    and feed: "\<forall>e\<in>set xs. feed_record P e"
    and sorted: "sorted_wrt (after_cursor P) xs"
    and n: "pageSize [(''size'', sz)] = Num n"
  shows "k \<le> length xs \<Longrightarrow> length xs - k < f \<Longrightarrow>
     (k = 0 \<and> cur = []) \<or> (0 < k \<and> cur = cursor_of (xs ! (k - 1))) \<Longrightarrow>
     fetch_all f P files s sz cur = Some (drop k xs)"
proof (induction f arbitrary: k cur)
  case 0
  then show ?case by simp
next
  case (Suc f)
  let ?q = "(''size'', sz) # cur"
  let ?c = "parseCursor P (map_of ?q ''after'') (map_of ?q ''after_id'')"
  let ?rest = "drop k xs"
  from n have n1: "1 \<le> n" by (simp add: pageSize_range)
  have start: "startIndexOf P (fst ?c) (snd ?c) xs = Inr k"
  proof (cases "k = 0")
    case True
    with Suc.prems(3) show ?thesis
      by (simp add: parseCursor_def startIndexOf_def)
  next
    case False
    with Suc.prems have cur: "cur = cursor_of (xs ! (k - 1))" and k: "k - 1 < length xs"
      by auto
    with feed have "feed_record P (xs ! (k - 1))" by simp
    then have c: "?c = (Some (time_of P (xs ! (k - 1))), Some (id_of (xs ! (k - 1))))"
      unfolding cur by (rule parseCursor_cursor_of)
    have "startIndexOf P (Some (time_of P (xs ! (k - 1)))) (Some (id_of (xs ! (k - 1)))) xs =
        Inr (Suc (k - 1))"
      using feed sorted k by (rule startIndexOf_sorted)
    then show ?thesis
      unfolding c using False by simp
  qed
  have ps: "pageSize ?q = Num n"
    unfolding pageSize_cursor_of [of sz cur] by (rule n)
  have get: "handleGet P files s ?q =
      Inr (200, PageBody (take (nat n) ?rest) (int (length ?rest) > n))"
    using ps all refl xs small start refl by (rule handleGet_size_Num)
  show ?case
  proof (cases "int (length ?rest) > n")
    case False
    then have "take (nat n) ?rest = ?rest" by simp
    with get False show ?thesis by simp
  next
    case True
    let ?data = "take (nat n) ?rest"
    let ?k' = "k + nat n"
    from True n1 have len: "?k' \<le> length xs" "nat n \<le> length ?rest" "0 < nat n"
      by auto
    then have ne: "?data \<noteq> []" by auto
    have "last ?data = ?data ! (nat n - 1)"
      using ne len by (simp add: last_conv_nth min_def)
    also have "\<dots> = xs ! (?k' - 1)"
      using len by (simp add: add.commute)
    finally have lst: "last ?data = xs ! (?k' - 1)" .
    from len have "?k' - 1 < length xs" by simp
    with feed have "feed_record P (xs ! (?k' - 1))" by simp
    then have nf: "\<not> cursor_fails (last ?data)"
      unfolding lst by (rule feed_record_conversions(3))
    have "fetch_all f P files s sz (cursor_of (last ?data)) = Some (drop ?k' xs)"
    proof (rule Suc.IH)
      show "?k' \<le> length xs" by (rule len(1))
      show "length xs - ?k' < f" using Suc.prems(2) len by linarith
      show "(?k' = 0 \<and> cursor_of (last ?data) = []) \<or>
          (0 < ?k' \<and> cursor_of (last ?data) = cursor_of (xs ! (?k' - 1)))"
        using len lst by simp
    qed
    moreover have "?data @ drop ?k' xs = ?rest"
      using append_take_drop_id [of "nat n" ?rest] by (simp add: add.commute)
    ultimately show ?thesis
      using get True ne nf by simp
  qed
qed

text \<open>
  When \<^verbatim>\<open>localeCompare\<close> orders the ids as the cursor test does, the records are as the
  server writes them and their ids differ, the sort returns the sorted listing, and
  fetching page after page returns that listing: every record once, each after the one
  before it. (The store holds fewer than \<open>2 ^ 32\<close> records, the bound of an array.)
\<close>

lemma fetch_all_complete:
  assumes "code_unit_collation P" and "getAllEntities files s = Inr unsorted"
    and "\<forall>e\<in>set unsorted. feed_record P e" and "distinct (map id_of unsorted)"
    and "length unsorted < 2 ^ 32"
    and "pageSize [(''size'', sz)] = Num n"
  shows "\<exists>xs. sort_by (compareCursor P) unsorted = Inr xs \<and>
           fetch_all (Suc (length unsorted)) P files s sz [] = Some xs \<and>
           sorted_wrt (after_cursor P) xs \<and>
           (\<forall>x. count_list xs x = count_list unsorted x)"
proof -
  from assms(1,3,4) obtain xs where xs: "sort_by (compareCursor P) unsorted = Inr xs"
    and sorted: "sorted_wrt (after_cursor P) xs"
    using feed_sorted [of P unsorted] by blast
  have cnt: "\<forall>x. count_list xs x = count_list unsorted x"
    using xs by (simp add: count_sort_by)
  have len: "length xs = length unsorted"
    using xs by (rule length_sort_by)
  have feed: "\<forall>e\<in>set xs. feed_record P e"
    using assms(3) set_sort_by [OF xs] by simp
  have small: "length xs < 2 ^ 32"
    using assms(5) len by simp
  have "fetch_all (Suc (length unsorted)) P files s sz [] = Some (drop 0 xs)"
    using assms(2) xs small feed sorted assms(6)
    by (rule fetch_from) (simp_all add: len)
  with xs sorted cnt show ?thesis
    by simp
qed

lemma code_unit_platform_collation: "code_unit_collation code_unit_platform"
  using str_gt_asym str_gt_irrefl
  by (auto simp: code_unit_collation_def code_unit_platform_def code_unit_compare_def)

lemma fetch_all_code_units:
  "fetch_all 3 code_unit_platform store_aB ''memos'' ''1'' [] = Some [rec_B, rec_a]"
  by code_simp

end
